theory Spec2Isabelle
  imports Complex_Main "HOL-Library.Word"
begin

unbundle bit_operations_syntax

section \<open>Machine types and errors\<close>

text \<open>
  The C++ sources (\<^verbatim>\<open>src/count_dna.h\<close>, \<^verbatim>\<open>src/tracks.h\<close>) use fixed-width
  integers. Counters of the coverage vector are \<^verbatim>\<open>uint16_t\<close>, the interval sum is
  \<^verbatim>\<open>uint64_t\<close>, window arithmetic is \<^verbatim>\<open>uint32_t\<close>. An access to a
  \<^verbatim>\<open>std::vector\<close> outside its range is undefined behaviour in C++; the embedding
  makes it the value \<open>Inl OutOfBounds\<close>.
\<close>

type_synonym u8 = "8 word"
type_synonym u16 = "16 word"
type_synonym u32 = "32 word"
type_synonym u64 = "64 word"

datatype error = OutOfBounds

text \<open>\<^verbatim>\<open>typedef uint16_t TCount; typedef std::vector<TCount> TCoverage;\<close>\<close>

type_synonym TCoverage = "u16 list"

text \<open>Conversion of an integer value to \<^verbatim>\<open>int32_t\<close> (two's complement).\<close>

definition to_int32 :: "int \<Rightarrow> int" where
  "to_int32 x = (x + 2 ^ 31) mod 2 ^ 32 - 2 ^ 31"

text \<open>\<^verbatim>\<open>uint32_t maxCoverage = std::numeric_limits<TCount>::max();\<close>\<close>

definition maxCoverage :: nat where
  "maxCoverage = 65535"

section \<open>Alignment records\<close>

text \<open>
  The fields of htslib's \<^verbatim>\<open>bam1_t\<close> that the two programs read: \<^verbatim>\<open>core.tid\<close>,
  \<^verbatim>\<open>core.pos\<close>, \<^verbatim>\<open>core.qual\<close>, \<^verbatim>\<open>core.flag\<close>, \<^verbatim>\<open>core.mtid\<close>,
  \<^verbatim>\<open>core.mpos\<close> (32-bit signed positions and ids, an 8-bit quality, 16 flag bits),
  the query name and the CIGAR array of packed 32-bit operations.
\<close>

record bam1_t =
  tid :: int
  pos :: int
  qual :: u8
  flag :: u16
  mtid :: int
  mpos :: int
  qname :: string
  cigar :: "u32 list"

text \<open>The flag bits and CIGAR operation codes of htslib's \<^verbatim>\<open>sam.h\<close>.\<close>

definition BAM_FPAIRED :: u16 where "BAM_FPAIRED = 1"
definition BAM_FUNMAP :: u16 where "BAM_FUNMAP = 4"
definition BAM_FMUNMAP :: u16 where "BAM_FMUNMAP = 8"
definition BAM_FSECONDARY :: u16 where "BAM_FSECONDARY = 256"
definition BAM_FQCFAIL :: u16 where "BAM_FQCFAIL = 512"
definition BAM_FDUP :: u16 where "BAM_FDUP = 1024"
definition BAM_FSUPPLEMENTARY :: u16 where "BAM_FSUPPLEMENTARY = 2048"

definition BAM_CMATCH :: u32 where "BAM_CMATCH = 0"
definition BAM_CINS :: u32 where "BAM_CINS = 1"
definition BAM_CDEL :: u32 where "BAM_CDEL = 2"
definition BAM_CREF_SKIP :: u32 where "BAM_CREF_SKIP = 3"
definition BAM_CSOFT_CLIP :: u32 where "BAM_CSOFT_CLIP = 4"
definition BAM_CHARD_CLIP :: u32 where "BAM_CHARD_CLIP = 5"
definition BAM_CEQUAL :: u32 where "BAM_CEQUAL = 7"
definition BAM_CDIFF :: u32 where "BAM_CDIFF = 8"

text \<open>\<^verbatim>\<open>#define bam_cigar_op(c) ((c) & 0xf)\<close>, \<^verbatim>\<open>#define bam_cigar_oplen(c) ((c) >> 4)\<close>\<close>

definition bam_cigar_op :: "u32 \<Rightarrow> u32" where
  "bam_cigar_op c = c AND 15"

definition bam_cigar_oplen :: "u32 \<Rightarrow> u32" where
  "bam_cigar_oplen c = drop_bit 4 c"

text \<open>
  The helpers of \<^verbatim>\<open>util.h\<close> that the loops call are not part of the sources at hand;
  they are parameters of the embedding. \<^verbatim>\<open>std::size_t\<close> hash values are only ever
  compared, so they are natural numbers here; \<^verbatim>\<open>halfAlignmentLength\<close> returns a
  \<^verbatim>\<open>uint32_t\<close>.
\<close>

record util =
  hash_string :: "string \<Rightarrow> nat"
  hash_pair :: "bam1_t \<Rightarrow> nat"
  hash_pair_mate :: "bam1_t \<Rightarrow> nat"
  halfAlignmentLength :: "bam1_t \<Rightarrow> nat"

section \<open>Pairing of mates (count\_dna.h lines 179--204, tracks.h lines 156--181)\<close>

text \<open>
  \<^verbatim>\<open>if ((rec->core.flag & (BAM_FSECONDARY | BAM_FQCFAIL | BAM_FDUP | BAM_FSUPPLEMENTARY |
       BAM_FUNMAP | BAM_FMUNMAP)) || (rec->core.tid != rec->core.mtid) ||
       (!(rec->core.flag & BAM_FPAIRED))) continue;\<close>
\<close>

definition flag_filtered :: "bam1_t \<Rightarrow> bool" where
  "flag_filtered rec \<longleftrightarrow>
     flag rec AND (BAM_FSECONDARY OR BAM_FQCFAIL OR BAM_FDUP OR BAM_FSUPPLEMENTARY OR
                   BAM_FUNMAP OR BAM_FMUNMAP) \<noteq> 0
     \<or> tid rec \<noteq> mtid rec
     \<or> \<not> (flag rec AND BAM_FPAIRED \<noteq> 0)"

text \<open>\<^verbatim>\<open>if (rec->core.qual < c.minQual) continue;\<close>\<close>

definition qual_filtered :: "u16 \<Rightarrow> bam1_t \<Rightarrow> bool" where
  "qual_filtered minQual rec \<longleftrightarrow> unat (qual rec) < unat minQual"

text \<open>
  The state of the loop over one chromosome: \<^verbatim>\<open>int32_t lastAlignedPos\<close>,
  \<^verbatim>\<open>std::set<std::size_t> lastAlignedPosReads\<close> and the map
  \<^verbatim>\<open>boost::unordered_map<std::size_t, uint8_t> qualities\<close>.
\<close>

record pair_state =
  lastAlignedPos :: int
  lastAlignedPosReads :: "nat set"
  qualities :: "nat \<rightharpoonup> u8"

definition init_state :: pair_state where
  "init_state = \<lparr>lastAlignedPos = 0, lastAlignedPosReads = {}, qualities = Map.empty\<rparr>"

text \<open>
  \<^verbatim>\<open>if (rec->core.pos > lastAlignedPos) {
    lastAlignedPosReads.clear();
    lastAlignedPos = rec->core.pos;
  }\<close>
\<close>

definition clean_up :: "pair_state \<Rightarrow> bam1_t \<Rightarrow> pair_state" where
  "clean_up st rec =
     (if pos rec > lastAlignedPos st
      then st\<lparr>lastAlignedPosReads := {}, lastAlignedPos := pos rec\<rparr>
      else st)"

text \<open>
  \<^verbatim>\<open>(rec->core.pos < rec->core.mpos) || ((rec->core.pos == rec->core.mpos) &&
   (lastAlignedPosReads.find(hash_string(bam_get_qname(rec))) == lastAlignedPosReads.end()))\<close>
\<close>

definition first_read :: "util \<Rightarrow> pair_state \<Rightarrow> bam1_t \<Rightarrow> bool" where
  "first_read u st rec \<longleftrightarrow>
     pos rec < mpos rec \<or>
     (pos rec = mpos rec \<and> hash_string u (qname rec) \<notin> lastAlignedPosReads st)"

text \<open>
  One record through the body of the loop, up to and including the test of the pair
  quality. The result is the new state and, when the record is the second read of a
  pair that passes, \<open>Some pairQuality\<close>: the point where count\_dna.h counts the
  mid point and tracks.h inserts the valid pair.
\<close>

definition resolve_pair :: "util \<Rightarrow> u16 \<Rightarrow> pair_state \<Rightarrow> bam1_t \<Rightarrow> pair_state \<times> u8 option" where
  "resolve_pair u minQual st0 rec =
     (if flag_filtered rec then (st0, None)
      else if qual_filtered minQual rec then (st0, None)
      else
        let st = clean_up st0 rec in
        if first_read u st rec then
          (st\<lparr>lastAlignedPosReads := insert (hash_string u (qname rec)) (lastAlignedPosReads st),
              qualities := (qualities st)(hash_pair u rec \<mapsto> qual rec)\<rparr>, None)
        else
          let hv = hash_pair_mate u rec in
          (case qualities st hv of
             None \<Rightarrow> (st, None)
           | Some q \<Rightarrow>
               let pairQuality = min q (qual rec);
                   st' = st\<lparr>qualities := (qualities st)(hv \<mapsto> 0)\<rparr>
               in if unat pairQuality < unat minQual then (st', None)
                  else (st', Some pairQuality)))"

text \<open>
  The valid fragments of a stream, in the order in which the loop reaches them: the
  second read of the pair with the pair quality.
\<close>

fun valid_fragments :: "util \<Rightarrow> u16 \<Rightarrow> pair_state \<Rightarrow> bam1_t list \<Rightarrow> (bam1_t \<times> u8) list" where
  "valid_fragments u minQual st [] = []"
| "valid_fragments u minQual st (rec # recs) =
     (case resolve_pair u minQual st rec of
        (st', None) \<Rightarrow> valid_fragments u minQual st' recs
      | (st', Some pairQuality) \<Rightarrow> (rec, pairQuality) # valid_fragments u minQual st' recs)"

section \<open>Mid point counting (\<^verbatim>\<open>bam_dna_counter\<close>, count\_dna.h lines 170--214)\<close>

text \<open>
  \<^verbatim>\<open>int32_t midPoint = rec->core.pos + halfAlignmentLength(rec);
  if ((midPoint < (int32_t) hdr->target_len[refIndex]) && (cov[midPoint] < maxCoverage - 1))
    ++cov[midPoint];\<close>
\<close>

definition count_mid_point :: "util \<Rightarrow> nat \<Rightarrow> TCoverage \<Rightarrow> bam1_t \<Rightarrow> error + TCoverage" where
  "count_mid_point u target_len cov rec =
     (let midPoint = to_int32 (pos rec + int (halfAlignmentLength u rec)) in
      if midPoint < to_int32 (int target_len) then
        (if 0 \<le> midPoint \<and> nat midPoint < length cov then
           (if unat (cov ! nat midPoint) < maxCoverage - 1
            then Inr (cov[nat midPoint := cov ! nat midPoint + 1])
            else Inr cov)
         else Inl OutOfBounds)
      else Inr cov)"

fun count_reads :: "util \<Rightarrow> u16 \<Rightarrow> nat \<Rightarrow> pair_state \<Rightarrow> TCoverage \<Rightarrow> bam1_t list \<Rightarrow> error + TCoverage" where
  "count_reads u minQual target_len st cov [] = Inr cov"
| "count_reads u minQual target_len st cov (rec # recs) =
     (case resolve_pair u minQual st rec of
        (st', None) \<Rightarrow> count_reads u minQual target_len st' cov recs
      | (st', Some pairQuality) \<Rightarrow>
          (case count_mid_point u target_len cov rec of
             Inl e \<Rightarrow> Inl e
           | Inr cov' \<Rightarrow> count_reads u minQual target_len st' cov' recs))"

text \<open>\<^verbatim>\<open>TCoverage cov(hdr->target_len[refIndex], 0);\<close> and the loop over the records.\<close>

definition bam_dna_counter_cov :: "util \<Rightarrow> u16 \<Rightarrow> nat \<Rightarrow> bam1_t list \<Rightarrow> error + TCoverage" where
  "bam_dna_counter_cov u minQual target_len recs =
     count_reads u minQual target_len init_state (replicate target_len 0) recs"

section \<open>Coverage of valid pairs (\<^verbatim>\<open>create_tracks\<close>, tracks.h lines 151--238)\<close>

text \<open>The first loop over a chromosome: \<^verbatim>\<open>validPairs.insert(hash_pair_mate(rec));\<close>\<close>

fun find_valid_pairs :: "util \<Rightarrow> u16 \<Rightarrow> pair_state \<Rightarrow> nat set \<Rightarrow> bam1_t list \<Rightarrow> nat set" where
  "find_valid_pairs u minQual st validPairs [] = validPairs"
| "find_valid_pairs u minQual st validPairs (rec # recs) =
     (case resolve_pair u minQual st rec of
        (st', None) \<Rightarrow> find_valid_pairs u minQual st' validPairs recs
      | (st', Some pairQuality) \<Rightarrow>
          find_valid_pairs u minQual st' (insert (hash_pair_mate u rec) validPairs) recs)"

text \<open>
  \<^verbatim>\<open>for(std::size_t k = 0; k<bam_cigar_oplen(cigar[i]);++k) {
    if (cov[rp] < maxCoverage) ++cov[rp];
    ++rp;
  }\<close>
  The reference pointer \<^verbatim>\<open>rp\<close> is a \<^verbatim>\<open>uint32_t\<close>. The source indexes the vector
  with it unchecked.
\<close>

fun cover_bases :: "nat \<Rightarrow> u32 \<Rightarrow> TCoverage \<Rightarrow> error + (u32 \<times> TCoverage)" where
  "cover_bases 0 rp cov = Inr (rp, cov)"
| "cover_bases (Suc k) rp cov =
     (if unat rp < length cov then
        cover_bases k (rp + 1)
          (if unat (cov ! unat rp) < maxCoverage then cov[unat rp := cov ! unat rp + 1] else cov)
      else Inl OutOfBounds)"

text \<open>The loop over the CIGAR operations of one record.\<close>

fun parse_cigar :: "u32 list \<Rightarrow> u32 \<Rightarrow> TCoverage \<Rightarrow> error + TCoverage" where
  "parse_cigar [] rp cov = Inr cov"
| "parse_cigar (c # cs) rp cov =
     (if bam_cigar_op c = BAM_CMATCH \<or> bam_cigar_op c = BAM_CEQUAL \<or> bam_cigar_op c = BAM_CDIFF then
        (case cover_bases (unat (bam_cigar_oplen c)) rp cov of
           Inl e \<Rightarrow> Inl e
         | Inr (rp', cov') \<Rightarrow> parse_cigar cs rp' cov')
      else if bam_cigar_op c = BAM_CDEL then parse_cigar cs (rp + bam_cigar_oplen c) cov
      else if bam_cigar_op c = BAM_CREF_SKIP then parse_cigar cs (rp + bam_cigar_oplen c) cov
      else parse_cigar cs rp cov)"

text \<open>
  The second loop over a chromosome. It never inserts into \<^verbatim>\<open>lastAlignedPosReads\<close>;
  \<^verbatim>\<open>uint32_t rp = rec->core.pos;\<close> converts the signed position.
\<close>

fun cover_reads :: "util \<Rightarrow> u16 \<Rightarrow> nat set \<Rightarrow> pair_state \<Rightarrow> TCoverage \<Rightarrow> bam1_t list \<Rightarrow> error + TCoverage" where
  "cover_reads u minQual validPairs st0 cov [] = Inr cov"
| "cover_reads u minQual validPairs st0 cov (rec # recs) =
     (if flag_filtered rec then cover_reads u minQual validPairs st0 cov recs
      else if qual_filtered minQual rec then cover_reads u minQual validPairs st0 cov recs
      else
        let st = clean_up st0 rec;
            hv = (if first_read u st rec then hash_pair u rec else hash_pair_mate u rec)
        in if hv \<in> validPairs then
             (case parse_cigar (cigar rec) (word_of_int (pos rec)) cov of
                Inl e \<Rightarrow> Inl e
              | Inr cov' \<Rightarrow> cover_reads u minQual validPairs st cov' recs)
           else cover_reads u minQual validPairs st cov recs)"

text \<open>
  Both loops for one chromosome; the coverage vector is only filled
  \<^verbatim>\<open>if (validPairs.size())\<close>.
\<close>

definition create_tracks_cov :: "util \<Rightarrow> u16 \<Rightarrow> nat \<Rightarrow> bam1_t list \<Rightarrow> error + TCoverage" where
  "create_tracks_cov u minQual target_len recs =
     (let validPairs = find_valid_pairs u minQual init_state {} recs in
      if validPairs \<noteq> {}
      then cover_reads u minQual validPairs init_state (replicate target_len 0) recs
      else Inr (replicate target_len 0))"


section \<open>Interval summation (\<^verbatim>\<open>bam_dna_counter\<close>, count\_dna.h lines 223--227)\<close>

text \<open>\<^verbatim>\<open>struct ItvChr { int32_t start; int32_t end; std::string id; };\<close>\<close>

record ItvChr =
  itv_start :: int
  itv_end :: int
  itv_id :: string

text \<open>
  \<^verbatim>\<open>uint64_t covsum = 0;
  for(int32_t k = itv[i].start; k < itv[i].end; ++k) covsum += cov[k];\<close>
\<close>

function covsum_loop :: "TCoverage \<Rightarrow> int \<Rightarrow> int \<Rightarrow> u64 \<Rightarrow> error + u64" where
  "covsum_loop cov k e covsum =
     (if k < e then
        (if 0 \<le> k \<and> nat k < length cov
         then covsum_loop cov (k + 1) e (covsum + ucast (cov ! nat k))
         else Inl OutOfBounds)
      else Inr covsum)"
  by pat_completeness auto
termination
  by (relation "measure (\<lambda>(cov, k, e, covsum). nat (e - k))") auto

declare covsum_loop.simps [simp del]

definition interval_covsum :: "TCoverage \<Rightarrow> ItvChr \<Rightarrow> error + u64" where
  "interval_covsum cov itv = covsum_loop cov (itv_start itv) (itv_end itv) 0"

text \<open>The loop over all intervals of one chromosome; one output row per interval.\<close>

fun assign_read_counts :: "TCoverage \<Rightarrow> ItvChr list \<Rightarrow> error + u64 list" where
  "assign_read_counts cov [] = Inr []"
| "assign_read_counts cov (itv # itvs) =
     (case interval_covsum cov itv of
        Inl e \<Rightarrow> Inl e
      | Inr s \<Rightarrow> (case assign_read_counts cov itvs of
                    Inl e \<Rightarrow> Inl e
                  | Inr ss \<Rightarrow> Inr (s # ss)))"

text \<open>
  A list of intervals that exactly partitions \<open>[lo, hi)\<close>: listed by increasing start,
  each one beginning where the previous one ends.
\<close>

fun partitions :: "int \<Rightarrow> int \<Rightarrow> ItvChr list \<Rightarrow> bool" where
  "partitions lo hi [] = (lo = hi)"
| "partitions lo hi (itv # itvs) =
     (itv_start itv = lo \<and> lo < itv_end itv \<and> itv_end itv \<le> hi \<and> partitions (itv_end itv) hi itvs)"

section \<open>Run-length encoding of the coverage (\<^verbatim>\<open>create_tracks\<close>, tracks.h lines 240--255)\<close>

text \<open>
  \<^verbatim>\<open>struct Track { uint32_t start; uint32_t end; double score; };\<close>
  Positions never exceed the length of the coverage vector, a \<^verbatim>\<open>uint32_t\<close>, so they are
  natural numbers here. The type of the score is a parameter of the record. The
  run-length encoding computes with real numbers: it only converts 16-bit counters,
  compares them and multiplies them by the normalisation factor. The merge loop takes
  the type and the arithmetic of \<^verbatim>\<open>double\<close> as parameters.
\<close>

record 'd Track =
  trk_start :: nat
  trk_end :: nat
  score :: "'d"

text \<open>
  \<^verbatim>\<open>uint32_t wb = 0; uint32_t we = 0; double wval = cov[0];
  for(uint32_t i = 1; i<cov.size(); ++i) {
    if (cov[i] == wval) ++we;
    else { tl.push_back(Track(wb, we+1, normFactor * wval)); wb = i; we = i; wval = cov[i]; }
  }
  tl.push_back(Track(wb, we+1, normFactor * wval));\<close>
  The loop runs over \<open>cov[1], cov[2], \<dots>\<close> with the index \<open>i\<close>; \<^verbatim>\<open>cov[0]\<close> on an
  empty vector is out of range.
\<close>

fun coverage_track_loop ::
  "real \<Rightarrow> TCoverage \<Rightarrow> nat \<Rightarrow> real Track list \<times> nat \<times> nat \<times> real \<Rightarrow>
   real Track list \<times> nat \<times> nat \<times> real" where
  "coverage_track_loop normFactor [] i (tline, wb, we, wval) = (tline, wb, we, wval)"
| "coverage_track_loop normFactor (c # cs) i (tline, wb, we, wval) =
     (if real (unat c) = wval
      then coverage_track_loop normFactor cs (i + 1) (tline, wb, we + 1, wval)
      else coverage_track_loop normFactor cs (i + 1)
             (tline @ [\<lparr>trk_start = wb, trk_end = we + 1, score = normFactor * wval\<rparr>],
              i, i, real (unat c)))"

definition coverage_track :: "real \<Rightarrow> TCoverage \<Rightarrow> error + real Track list" where
  "coverage_track normFactor cov =
     (case cov of
        [] \<Rightarrow> Inl OutOfBounds
      | c0 # cs \<Rightarrow>
          (case coverage_track_loop normFactor cs 1 ([], 0, 0, real (unat c0)) of
             (tline, wb, we, wval) \<Rightarrow>
               Inr (tline @ [\<lparr>trk_start = wb, trk_end = we + 1, score = normFactor * wval\<rparr>])))"

section \<open>Arithmetic of \<^verbatim>\<open>double\<close>\<close>

text \<open>
  The reduction of the segment list computes with \<^verbatim>\<open>double\<close>: results are rounded, they
  can be infinite or NaN, and they decide which segments are merged. The type \<open>'d\<close> of a
  \<^verbatim>\<open>double\<close> and the operations that the reduction applies to it are parameters of the
  model, so that what is proved of the reduction holds for every floating-point
  arithmetic:
  \<^item> \<open>of_uint\<close>: the conversion of an unsigned integer (\<^verbatim>\<open>uint32_t\<close>, \<^verbatim>\<open>size_t\<close>, the
    literal \<^verbatim>\<open>1\<close>) to \<^verbatim>\<open>double\<close>;
  \<^item> \<open>of_float\<close>: the promotion of the \<^verbatim>\<open>float\<close> \<^verbatim>\<open>c.resolution\<close>, given by its value;
  \<^item> \<open>dadd\<close>, \<open>dsub\<close>, \<open>dmul\<close>, \<open>ddiv\<close>: \<^verbatim>\<open>+\<close>, \<^verbatim>\<open>-\<close>, \<^verbatim>\<open>*\<close>, \<^verbatim>\<open>/\<close>;
  \<^item> \<open>dle\<close>, \<open>dgt\<close>: \<^verbatim>\<open><=\<close> and \<^verbatim>\<open>>\<close>;
  \<^item> \<open>to_uint32\<close>: the conversion of a \<^verbatim>\<open>double\<close> to \<^verbatim>\<open>uint32_t\<close>;
  \<^item> \<open>dsort\<close>: \<^verbatim>\<open>std::sort\<close> on a \<^verbatim>\<open>std::vector<double>\<close>.
\<close>

record 'd double_ops =
  of_uint :: "nat \<Rightarrow> 'd"
  of_float :: "real \<Rightarrow> 'd"
  dadd :: "'d \<Rightarrow> 'd \<Rightarrow> 'd"
  dsub :: "'d \<Rightarrow> 'd \<Rightarrow> 'd"
  dmul :: "'d \<Rightarrow> 'd \<Rightarrow> 'd"
  ddiv :: "'d \<Rightarrow> 'd \<Rightarrow> 'd"
  dle :: "'d \<Rightarrow> 'd \<Rightarrow> bool"
  dgt :: "'d \<Rightarrow> 'd \<Rightarrow> bool"
  to_uint32 :: "'d \<Rightarrow> u32"
  dsort :: "'d list \<Rightarrow> 'd list"

section \<open>Reduction of the segment list (\<^verbatim>\<open>create_tracks\<close>, tracks.h lines 257--300)\<close>

text \<open>
  \<^verbatim>\<open>uint32_t w1 = idx->end - idx->start;
  uint32_t w2 = idxNext->end - idxNext->start;
  double nwavg = (w1 * idx->score + w2 * idxNext->score) / (w1 + w2);
  double nerr = w1 * ((idx->score - nwavg) * (idx->score - nwavg));
  nerr += w2 * ((idxNext->score - nwavg) * (idxNext->score - nwavg));\<close>
  Segments built by the run-length encoding have \<open>start < end\<close>, where the unsigned
  subtraction does not wrap. The widths are converted to \<^verbatim>\<open>double\<close> where they meet
  a score; \<^verbatim>\<open>w1 + w2\<close> is added as \<^verbatim>\<open>uint32_t\<close> and converted then.
\<close>

definition nwavg :: "'d double_ops \<Rightarrow> 'd Track \<Rightarrow> 'd Track \<Rightarrow> 'd" where
  "nwavg ops a b =
     (let w1 = trk_end a - trk_start a; w2 = trk_end b - trk_start b
      in ddiv ops
           (dadd ops (dmul ops (of_uint ops w1) (score a)) (dmul ops (of_uint ops w2) (score b)))
           (of_uint ops (w1 + w2)))"

definition nerr :: "'d double_ops \<Rightarrow> 'd Track \<Rightarrow> 'd Track \<Rightarrow> 'd" where
  "nerr ops a b =
     (let w1 = trk_end a - trk_start a; w2 = trk_end b - trk_start b;
          avg = nwavg ops a b
      in dadd ops
           (dmul ops (of_uint ops w1) (dmul ops (dsub ops (score a) avg) (dsub ops (score a) avg)))
           (dmul ops (of_uint ops w2) (dmul ops (dsub ops (score b) avg) (dsub ops (score b) avg))))"

text \<open>The vector \<^verbatim>\<open>errs\<close>: the merge cost of every adjacent pair, before sorting.\<close>

fun merge_errs :: "'d double_ops \<Rightarrow> 'd Track list \<Rightarrow> 'd list" where
  "merge_errs ops (a # b # rest) = nerr ops a b # merge_errs ops (b # rest)"
| "merge_errs ops tline = []"

text \<open>
  The walk over the list with \<^verbatim>\<open>idx\<close> and \<^verbatim>\<open>idxNext\<close>. On a merge
  (\<^verbatim>\<open>nerr <= thres\<close>) the left segment is erased and the right one takes over its start
  and the weighted average; \<^verbatim>\<open>idx\<close> then points to the merged segment, which is
  compared with its successor next.
\<close>

fun merge_pass :: "'d double_ops \<Rightarrow> 'd \<Rightarrow> 'd Track list \<Rightarrow> 'd Track list" where
  "merge_pass ops thres (a # b # rest) =
     (if dle ops (nerr ops a b) thres
      then merge_pass ops thres (b\<lparr>trk_start := trk_start a, score := nwavg ops a b\<rparr> # rest)
      else a # merge_pass ops thres (b # rest))"
| "merge_pass ops thres tline = tline"

text \<open>
  \<^verbatim>\<open>uint32_t bpidx = (red - c.resolution) * tl.size();
  if (bpidx > 0) bpidx = bpidx - 1;\<close>
  The difference and the product are computed in \<^verbatim>\<open>double\<close>, and the product is
  converted to \<^verbatim>\<open>uint32_t\<close>.
\<close>

definition bp_index :: "'d double_ops \<Rightarrow> 'd \<Rightarrow> 'd \<Rightarrow> nat \<Rightarrow> u32" where
  "bp_index ops red resolution n =
     (let bpidx = to_uint32 ops (dmul ops (dsub ops red resolution) (of_uint ops n))
      in if bpidx > 0 then bpidx - 1 else bpidx)"

text \<open>
  \<^verbatim>\<open>while ((tl.size() > 1) && (red > c.resolution)) {
    ... std::sort(errs.begin(), errs.end()); ... double thres = errs[bpidx]; ...
    red = (double) tl.size() / (double) origs;
  }\<close>
  \<^verbatim>\<open>errs[bpidx]\<close> is an unchecked access to a vector that is one shorter than the
  segment list. Nothing in the loop bounds the number of passes: a pass that merges
  nothing leaves \<^verbatim>\<open>red\<close> and the list as they are, so the loop is a partial function
  and \<open>None\<close> stands for a loop that does not return.
\<close>

partial_function (option) reduce_loop ::
  "'d double_ops \<Rightarrow> 'd \<Rightarrow> nat \<Rightarrow> 'd \<Rightarrow> 'd Track list \<Rightarrow> (error + 'd Track list) option" where
  "reduce_loop ops resolution origs red tline =
     (if length tline > 1 \<and> dgt ops red resolution then
        (let errs = dsort ops (merge_errs ops tline);
             bpidx = bp_index ops red resolution (length tline)
         in if unat bpidx < length errs then
              (let thres = errs ! unat bpidx;
                   tline' = merge_pass ops thres tline
               in reduce_loop ops resolution origs
                    (ddiv ops (of_uint ops (length tline')) (of_uint ops origs)) tline')
            else Some (Inl OutOfBounds))
      else Some (Inr tline))"

text \<open>
  \<^verbatim>\<open>if ((c.resolution > 0) && (c.resolution < 1)) {
    double red = 1; uint32_t origs = tl.size(); while ... }\<close>
  The resolution is a \<^verbatim>\<open>float\<close>, given here by its value; the two comparisons with
  integers are exact.
\<close>

definition reduce_file_size ::
  "'d double_ops \<Rightarrow> real \<Rightarrow> 'd Track list \<Rightarrow> (error + 'd Track list) option" where
  "reduce_file_size ops resolution tline =
     (if resolution > 0 \<and> resolution < 1
      then reduce_loop ops (of_float ops resolution) (length tline) (of_uint ops 1) tline
      else Some (Inr tline))"

text \<open>
  The segment list that is written out for a coverage vector. The run-length encoding
  computes its scores over the reals, and the reduction continues with them.
\<close>

definition segment_compressor ::
  "real double_ops \<Rightarrow> real \<Rightarrow> real \<Rightarrow> TCoverage \<Rightarrow> (error + real Track list) option" where
  "segment_compressor ops normFactor resolution cov =
     (case coverage_track normFactor cov of
        Inl e \<Rightarrow> Some (Inl e)
      | Inr tline \<Rightarrow> reduce_file_size ops resolution tline)"

lemma merge_pass_length_le: "length (merge_pass ops thres tline) \<le> length tline"
  by (induction ops thres tline rule: merge_pass.induct) (auto simp: le_SucI)

lemma merge_pass_decreases:
  "\<exists>e \<in> set (merge_errs ops tline). dle ops e thres \<Longrightarrow>
   length (merge_pass ops thres tline) < length tline"
proof (induction ops thres tline rule: merge_pass.induct)
  case (1 ops thres a b rest)
  show ?case
  proof (cases "dle ops (nerr ops a b) thres")
    case True
    have "length (merge_pass ops thres (b\<lparr>trk_start := trk_start a, score := nwavg ops a b\<rparr> # rest))
            \<le> length (b\<lparr>trk_start := trk_start a, score := nwavg ops a b\<rparr> # rest)"
      by (rule merge_pass_length_le)
    with True show ?thesis by simp
  next
    case False
    with "1.prems" have "\<exists>e \<in> set (merge_errs ops (b # rest)). dle ops e thres" by auto
    with "1.IH"(2)[OF False] False show ?thesis by simp
  qed
qed simp_all

lemma length_merge_errs: "length (merge_errs ops tline) = length tline - 1"
  by (induction ops tline rule: merge_errs.induct) auto

section \<open>Instances of the arithmetic\<close>

subsection \<open>Exact arithmetic\<close>

text \<open>
  The arithmetic of the real numbers, for inputs on which \<^verbatim>\<open>double\<close> does not round.
\<close>

definition exact_ops :: "real double_ops" where
  "exact_ops =
     \<lparr>of_uint = real, of_float = (\<lambda>r. r),
      dadd = (+), dsub = (-), dmul = (*), ddiv = (/),
      dle = (\<le>), dgt = (\<lambda>x y. y < x),
      to_uint32 = (\<lambda>x. word_of_int \<lfloor>x\<rfloor>), dsort = sort\<rparr>"

subsection \<open>IEEE 754 binary64\<close>

text \<open>
  A \<^verbatim>\<open>double\<close> of IEEE 754: a finite value, an infinity or NaN. The sign of a zero is
  not represented: the reduction divides by widths and counts only, and \<^verbatim>\<open><=\<close> and
  \<^verbatim>\<open>>\<close> do not tell the zeros apart.
\<close>

datatype double = Finite real | PInf | NInf | NaN

text \<open>Rounding to the nearest integer, ties to even.\<close>

definition round_even :: "real \<Rightarrow> int" where
  "round_even x =
     (let f = \<lfloor>x\<rfloor>; d = x - of_int f
      in if d < 1 / 2 then f else if 1 / 2 < d then f + 1 else if even f then f else f + 1)"

text \<open>
  The exponent \<open>e\<close> of the binade \<open>2\<^sup>e \<le> x < 2\<^sup>e\<^sup>+\<^sup>1\<close> of a positive \<open>x\<close>, searched from 0 and
  kept between the least and the greatest exponent of a binary64, -1022 and 1023.
\<close>

primrec bexp_from :: "nat \<Rightarrow> int \<Rightarrow> real \<Rightarrow> int" where
  "bexp_from 0 e x = e"
| "bexp_from (Suc k) e x =
     (if x < 2 powi e \<and> - 1022 < e then bexp_from k (e - 1) x
      else if 2 powi (e + 1) \<le> x \<and> e < 1023 then bexp_from k (e + 1) x
      else e)"

definition bexp :: "real \<Rightarrow> int" where
  "bexp x = bexp_from 1023 0 x"

text \<open>
  Rounding of a real number to binary64, to nearest and ties to even: the significand
  has 53 bits, so that the unit in the last place of the binade with exponent \<open>e\<close> is
  \<open>2\<^sup>e\<^sup>-\<^sup>5\<^sup>2\<close>; a result of \<open>2\<^sup>1\<^sup>0\<^sup>2\<^sup>4\<close> or more is an infinity.
\<close>

definition round_double :: "real \<Rightarrow> double" where
  "round_double x =
     (if x = 0 then Finite 0
      else let u = 2 powi (bexp \<bar>x\<bar> - 52); m = round_even (\<bar>x\<bar> / u)
           in if 2 powi 1024 \<le> of_int m * u then (if 0 < x then PInf else NInf)
              else Finite (sgn x * of_int m * u))"

fun ieee_neg :: "double \<Rightarrow> double" where
  "ieee_neg (Finite a) = Finite (- a)"
| "ieee_neg PInf = NInf"
| "ieee_neg NInf = PInf"
| "ieee_neg NaN = NaN"

fun ieee_add :: "double \<Rightarrow> double \<Rightarrow> double" where
  "ieee_add (Finite a) (Finite b) = round_double (a + b)"
| "ieee_add NaN y = NaN"
| "ieee_add x NaN = NaN"
| "ieee_add PInf NInf = NaN"
| "ieee_add NInf PInf = NaN"
| "ieee_add PInf y = PInf"
| "ieee_add x PInf = PInf"
| "ieee_add NInf y = NInf"
| "ieee_add x NInf = NInf"

definition ieee_sub :: "double \<Rightarrow> double \<Rightarrow> double" where
  "ieee_sub x y = ieee_add x (ieee_neg y)"

fun ieee_mul :: "double \<Rightarrow> double \<Rightarrow> double" where
  "ieee_mul (Finite a) (Finite b) = round_double (a * b)"
| "ieee_mul NaN y = NaN"
| "ieee_mul x NaN = NaN"
| "ieee_mul (Finite a) y = (if a = 0 then NaN else if (0 < a) = (y = PInf) then PInf else NInf)"
| "ieee_mul x (Finite b) = (if b = 0 then NaN else if (0 < b) = (x = PInf) then PInf else NInf)"
| "ieee_mul x y = (if x = y then PInf else NInf)"

fun ieee_div :: "double \<Rightarrow> double \<Rightarrow> double" where
  "ieee_div (Finite a) (Finite b) =
     (if b = 0 then (if a = 0 then NaN else if 0 < a then PInf else NInf)
      else round_double (a / b))"
| "ieee_div NaN y = NaN"
| "ieee_div x NaN = NaN"
| "ieee_div (Finite a) y = Finite 0"
| "ieee_div x (Finite b) = (if (0 \<le> b) = (x = PInf) then PInf else NInf)"
| "ieee_div x y = NaN"

fun ieee_le :: "double \<Rightarrow> double \<Rightarrow> bool" where
  "ieee_le (Finite a) (Finite b) = (a \<le> b)"
| "ieee_le NaN y = False"
| "ieee_le x NaN = False"
| "ieee_le NInf y = True"
| "ieee_le x PInf = True"
| "ieee_le x y = False"

fun ieee_less :: "double \<Rightarrow> double \<Rightarrow> bool" where
  "ieee_less (Finite a) (Finite b) = (a < b)"
| "ieee_less NaN y = False"
| "ieee_less x NaN = False"
| "ieee_less NInf NInf = False"
| "ieee_less PInf PInf = False"
| "ieee_less NInf y = True"
| "ieee_less x PInf = True"
| "ieee_less x y = False"

text \<open>
  The conversion to \<^verbatim>\<open>uint32_t\<close> truncates; it is undefined in C++ for a value that
  \<^verbatim>\<open>uint32_t\<close> cannot hold, where this instance returns 0.
\<close>

fun ieee_to_uint32 :: "double \<Rightarrow> u32" where
  "ieee_to_uint32 (Finite x) = (if 0 \<le> x \<and> x < 2 ^ 32 then word_of_int \<lfloor>x\<rfloor> else 0)"
| "ieee_to_uint32 x = 0"

text \<open>
  Sorting by insertion with \<^verbatim>\<open><\<close>. On a vector without NaN every sorting algorithm
  returns the same sequence of values.
\<close>

fun insert_by :: "('a \<Rightarrow> 'a \<Rightarrow> bool) \<Rightarrow> 'a \<Rightarrow> 'a list \<Rightarrow> 'a list" where
  "insert_by lt x [] = [x]"
| "insert_by lt x (y # ys) = (if lt y x then y # insert_by lt x ys else x # y # ys)"

definition sort_by :: "('a \<Rightarrow> 'a \<Rightarrow> bool) \<Rightarrow> 'a list \<Rightarrow> 'a list" where
  "sort_by lt xs = foldr (insert_by lt) xs []"

definition binary64 :: "double double_ops" where
  "binary64 =
     \<lparr>of_uint = (\<lambda>n. round_double (real n)), of_float = Finite,
      dadd = ieee_add, dsub = ieee_sub, dmul = ieee_mul, ddiv = ieee_div,
      dle = ieee_le, dgt = (\<lambda>x y. ieee_less y x),
      to_uint32 = ieee_to_uint32, dsort = sort_by ieee_less\<rparr>"

lemma bexp_from_numeral:
  "bexp_from (numeral k) e x =
     (if x < 2 powi e \<and> - 1022 < e then bexp_from (pred_numeral k) (e - 1) x
      else if 2 powi (e + 1) \<le> x \<and> e < 1023 then bexp_from (pred_numeral k) (e + 1) x
      else e)"
  by (simp add: numeral_eq_Suc)

lemmas round_double_eval = round_double_def bexp_def bexp_from_numeral round_even_def Let_def

section \<open>Windows (\<^verbatim>\<open>createIntervals\<close>, count\_dna.h lines 64--125)\<close>

text \<open>The fields of \<^verbatim>\<open>CountDNAConfig\<close> that \<^verbatim>\<open>createIntervals\<close> reads.\<close>

record CountDNAConfig =
  window_size :: u32
  window_offset :: u32
  window_num :: u32
  hasIntervalFile :: bool

text \<open>\<^verbatim>\<open>boost::lexical_cast<std::string>\<close> of an \<^verbatim>\<open>int32_t\<close>: its decimal digits.\<close>

fun digits :: "nat \<Rightarrow> string" where
  "digits n = (if n < 10 then [char_of (48 + n)] else digits (n div 10) @ [char_of (48 + n mod 10)])"

declare digits.simps [simp del]

definition lexical_cast :: "int \<Rightarrow> string" where
  "lexical_cast i = (if i < 0 then CHR ''-'' # digits (nat (- i)) else digits (nat i))"

text \<open>
  \<^verbatim>\<open>while (pos < target_len) {
    uint32_t window_len = pos+wSize;
    if (window_len > target_len) window_len = target_len;
    ItvChr itv; itv.start = pos; itv.end = window_len;
    itv.id = chr + ":" + lexical_cast(itv.start) + "-" + lexical_cast(itv.end);
    intvec.push_back(itv);
    pos += wOffset;
  }\<close>
  All arithmetic is \<^verbatim>\<open>uint32_t\<close> and wraps; \<^verbatim>\<open>itv.start\<close> and \<^verbatim>\<open>itv.end\<close> are
  \<^verbatim>\<open>int32_t\<close>. The loop need not end, so its result is an option: \<open>None\<close> when it
  runs forever.
\<close>

partial_function (option) window_loop ::
  "string \<Rightarrow> u32 \<Rightarrow> u32 \<Rightarrow> u32 \<Rightarrow> u32 \<Rightarrow> ItvChr list \<Rightarrow> ItvChr list option" where
  "window_loop chr target_len wSize wOffset p intvec =
     (if p < target_len then
        (let window_len = p + wSize;
             window_len = (if window_len > target_len then target_len else window_len);
             s = sint p;
             e = sint window_len;
             itv = \<lparr>itv_start = s, itv_end = e,
                    itv_id = chr @ '':'' @ lexical_cast s @ ''-'' @ lexical_cast e\<rparr>
         in window_loop chr target_len wSize wOffset (p + wOffset) (intvec @ [itv]))
      else Some intvec)"

declare window_loop.simps [code]

text \<open>
  The branch for an interval file, over the lines of the file already split into
  chromosome name, start, end and id. It returns \<^verbatim>\<open>false\<close> on a negative bound and on
  \<open>start \<ge> end\<close>.
\<close>

fun read_intervals :: "string \<Rightarrow> (string \<times> int \<times> int \<times> string) list \<Rightarrow> ItvChr list \<Rightarrow> bool \<times> ItvChr list" where
  "read_intervals chr [] intvec = (True, intvec)"
| "read_intervals chr ((chrName, s, e, name) # ls) intvec =
     (if chrName = chr then
        (if s < 0 then (False, intvec)
         else if e < 0 then (False, intvec)
         else if s \<ge> e then (False, intvec)
         else read_intervals chr ls (intvec @ [\<lparr>itv_start = s, itv_end = e, itv_id = name\<rparr>]))
      else read_intervals chr ls intvec)"

text \<open>
  \<^verbatim>\<open>createIntervals(c, chr, target_len, intvec)\<close>; the second argument stands for the
  content of \<^verbatim>\<open>c.int_file\<close>.
\<close>

definition createIntervals ::
  "CountDNAConfig \<Rightarrow> (string \<times> int \<times> int \<times> string) list \<Rightarrow> string \<Rightarrow> u32 \<Rightarrow> ItvChr list
     \<Rightarrow> (bool \<times> ItvChr list) option" where
  "createIntervals c interval_file chr target_len intvec =
     (if hasIntervalFile c then Some (read_intervals chr interval_file intvec)
      else
        (let wSize = window_size c;
             wOffset = window_offset c;
             wSize = (if window_num c > 0 then target_len div window_num c + 1 else wSize);
             wOffset = (if window_num c > 0 then wSize else wOffset)
         in map_option (Pair True) (window_loop chr target_len wSize wOffset 0 intvec)))"

section \<open>Properties of the interval summation\<close>

lemma unat_u16_le: "unat (c :: u16) \<le> 65535"
  using unsigned_less[of c, where 'a=nat] by simp

lemma unat_ucast_u16_u64: "unat (ucast (c :: u16) :: u64) = unat c"
  using unat_u16_le[of c] by (simp add: unsigned_ucast_eq take_bit_nat_eq_self)

lemma unat_add_ucast:
  "unat (acc :: u64) + 65535 < 2 ^ 64 \<Longrightarrow> unat (acc + ucast (c :: u16)) = unat acc + unat c"
  using unat_u16_le[of c]
  by (simp add: unat_word_ariths unat_ucast_u16_u64)

lemma covsum_loop_sum:
  "0 \<le> k \<Longrightarrow> k \<le> e \<Longrightarrow> nat e \<le> length cov \<Longrightarrow>
   unat acc + (nat e - nat k) * 65535 < 2 ^ 64 \<Longrightarrow>
   \<exists>w. covsum_loop cov k e acc = Inr w \<and> unat w = unat acc + (\<Sum>i = nat k..<nat e. unat (cov ! i))"
proof (induction cov k e acc rule: covsum_loop.induct)
  case (1 cov k e acc)
  show ?case
  proof (cases "k < e")
    case False
    with "1.prems" have "k = e" by simp
    then show ?thesis by (subst covsum_loop.simps) simp
  next
    case True
    with "1.prems" have inr: "0 \<le> k \<and> nat k < length cov" by linarith
    obtain d where d: "nat e - nat k = Suc d" "nat e - nat (k + 1) = d"
      using True inr by (cases "nat e - nat k") (auto simp: nat_add_distrib)
    from "1.prems"(4) d have small: "unat acc + 65535 < 2 ^ 64"
      by simp
    have step: "unat (acc + ucast (cov ! nat k)) = unat acc + unat (cov ! nat k)"
      by (rule unat_add_ucast[OF small])
    have bound: "unat (acc + ucast (cov ! nat k)) + (nat e - nat (k + 1)) * 65535 < 2 ^ 64"
      using "1.prems"(4) unat_u16_le[of "cov ! nat k"] d by (simp add: step)
    have k1: "0 \<le> k + 1" "k + 1 \<le> e" using True inr by auto
    from "1.IH"[OF True inr k1 "1.prems"(3) bound]
    obtain w where w: "covsum_loop cov (k + 1) e (acc + ucast (cov ! nat k)) = Inr w"
      "unat w = unat (acc + ucast (cov ! nat k)) + (\<Sum>i = nat (k + 1)..<nat e. unat (cov ! i))"
      by auto
    have "nat (k + 1) = Suc (nat k)" using inr by linarith
    moreover have "(\<Sum>i = nat k..<nat e. unat (cov ! i)) = unat (cov ! nat k) + (\<Sum>i = Suc (nat k)..<nat e. unat (cov ! i))"
      using True inr by (intro sum.atLeast_Suc_lessThan) linarith
    ultimately show ?thesis using w True inr step
      by (subst covsum_loop.simps) simp
  qed
qed

lemma interval_covsum_sum:
  assumes "0 \<le> itv_start itv" "itv_start itv \<le> itv_end itv" "nat (itv_end itv) \<le> length cov"
    and "length cov < 2 ^ 32"
  shows "\<exists>w. interval_covsum cov itv = Inr w \<and>
             unat w = (\<Sum>i = nat (itv_start itv)..<nat (itv_end itv). unat (cov ! i))"
proof -
  have "(nat (itv_end itv) - nat (itv_start itv)) * 65535 \<le> length cov * 65535"
    using assms(3) by simp
  also have "\<dots> < 2 ^ 32 * 65535" using assms(4) by simp
  also have "\<dots> < (2 :: nat) ^ 64" by simp
  finally have "unat (0 :: u64) + (nat (itv_end itv) - nat (itv_start itv)) * 65535 < 2 ^ 64"
    by simp
  from covsum_loop_sum[OF assms(1,2,3) this] show ?thesis
    by (simp add: interval_covsum_def)
qed

lemma assign_read_counts_partition:
  "partitions lo hi itvs \<Longrightarrow> 0 \<le> lo \<Longrightarrow> nat hi \<le> length cov \<Longrightarrow> length cov < 2 ^ 32 \<Longrightarrow>
   \<exists>ws. assign_read_counts cov itvs = Inr ws \<and> length ws = length itvs \<and>
        sum_list (map unat ws) = (\<Sum>i = nat lo..<nat hi. unat (cov ! i))"
proof (induction itvs arbitrary: lo)
  case Nil
  then show ?case by simp
next
  case (Cons itv itvs)
  from Cons.prems have p: "itv_start itv = lo" "lo < itv_end itv" "itv_end itv \<le> hi"
    "partitions (itv_end itv) hi itvs" by auto
  from p Cons.prems have "\<exists>w. interval_covsum cov itv = Inr w \<and>
             unat w = (\<Sum>i = nat (itv_start itv)..<nat (itv_end itv). unat (cov ! i))"
    by (intro interval_covsum_sum) auto
  then obtain w where w: "interval_covsum cov itv = Inr w"
    "unat w = (\<Sum>i = nat lo..<nat (itv_end itv). unat (cov ! i))" using p by auto
  from Cons.IH[OF p(4) _ Cons.prems(3,4)] p Cons.prems(2)
  obtain ws where ws: "assign_read_counts cov itvs = Inr ws" "length ws = length itvs"
    "sum_list (map unat ws) = (\<Sum>i = nat (itv_end itv)..<nat hi. unat (cov ! i))" by auto
  have "(\<Sum>i = nat lo..<nat hi. unat (cov ! i)) =
        (\<Sum>i = nat lo..<nat (itv_end itv). unat (cov ! i)) + (\<Sum>i = nat (itv_end itv)..<nat hi. unat (cov ! i))"
    using p Cons.prems(2) by (intro sum.atLeastLessThan_concat[symmetric]) auto
  with w ws show ?case by simp
qed

lemma sum_list_nth_unat: "sum_list (map unat cov) = (\<Sum>i = 0..<length cov. unat (cov ! i))"
  by (simp add: sum_list_sum_nth)

text \<open>
  Claim C9. For a coverage vector (of fewer than \<open>2\<^sup>3\<^sup>2\<close> counters, the range of the
  chromosome length) and an interval \<open>[start, end)\<close> inside it, the interval sum is the
  sum of the depth values at the indices \<open>start, \<dots>, end - 1\<close>, without overflow of the
  64-bit accumulator. For intervals that exactly partition the chromosome the sums add
  up to the sum of the whole vector. The interval \<open>[2, 5)\<close> on \<open>[1,1,5,5,5,1]\<close> gives 15.
\<close>

theorem interval_summarizer_sum:
  "(0 \<le> itv_start itv \<and> itv_start itv \<le> itv_end itv \<and> nat (itv_end itv) \<le> length cov \<and>
    length cov < 2 ^ 32 \<longrightarrow>
      (\<exists>w. interval_covsum cov itv = Inr w \<and>
           unat w = (\<Sum>i = nat (itv_start itv)..<nat (itv_end itv). unat (cov ! i)))) \<and>
   (partitions 0 (int (length cov)) itvs \<and> length cov < 2 ^ 32 \<longrightarrow>
      (\<exists>ws. assign_read_counts cov itvs = Inr ws \<and> length ws = length itvs \<and>
            sum_list (map unat ws) = sum_list (map unat cov))) \<and>
   (\<exists>w. interval_covsum [1, 1, 5, 5, 5, 1] \<lparr>itv_start = 2, itv_end = 5, itv_id = name\<rparr> = Inr w \<and>
        unat w = 15)"
proof (intro conjI impI)
  assume "0 \<le> itv_start itv \<and> itv_start itv \<le> itv_end itv \<and> nat (itv_end itv) \<le> length cov \<and>
    length cov < 2 ^ 32"
  then show "\<exists>w. interval_covsum cov itv = Inr w \<and>
           unat w = (\<Sum>i = nat (itv_start itv)..<nat (itv_end itv). unat (cov ! i))"
    by (intro interval_covsum_sum) auto
next
  assume a: "partitions 0 (int (length cov)) itvs \<and> length cov < 2 ^ 32"
  then have "\<exists>ws. assign_read_counts cov itvs = Inr ws \<and> length ws = length itvs \<and>
        sum_list (map unat ws) = (\<Sum>i = nat 0..<nat (int (length cov)). unat (cov ! i))"
    by (intro assign_read_counts_partition) auto
  then show "\<exists>ws. assign_read_counts cov itvs = Inr ws \<and> length ws = length itvs \<and>
            sum_list (map unat ws) = sum_list (map unat cov)"
    by (simp add: sum_list_nth_unat)
next
  show "\<exists>w. interval_covsum [1, 1, 5, 5, 5, 1] \<lparr>itv_start = 2, itv_end = 5, itv_id = name\<rparr> = Inr w \<and>
        unat w = 15"
    by (simp add: interval_covsum_def covsum_loop.simps)
qed

theorem interval_summarizer_sum_witness:
  "interval_covsum [1, 1, 5, 5, 5, 1] \<lparr>itv_start = 2, itv_end = 5, itv_id = ''chr1:2-5''\<rparr> = Inr 15 \<and>
   assign_read_counts [1, 1, 5, 5, 5, 1]
     [\<lparr>itv_start = 0, itv_end = 2, itv_id = ''a''\<rparr>, \<lparr>itv_start = 2, itv_end = 5, itv_id = ''b''\<rparr>,
      \<lparr>itv_start = 5, itv_end = 6, itv_id = ''c''\<rparr>] = Inr [2, 15, 1] \<and>
   sum_list (map unat [2, 15, 1 :: u64]) = sum_list (map unat [1, 1, 5, 5, 5, 1 :: u16])"
  using interval_summarizer_sum[of "\<lparr>itv_start = 2, itv_end = 5, itv_id = ''chr1:2-5''\<rparr>"
      "[1, 1, 5, 5, 5, 1]"
      "[\<lparr>itv_start = 0, itv_end = 2, itv_id = ''a''\<rparr>, \<lparr>itv_start = 2, itv_end = 5, itv_id = ''b''\<rparr>,
      \<lparr>itv_start = 5, itv_end = 6, itv_id = ''c''\<rparr>]" "''chr1:2-5''"]
  by (simp add: interval_covsum_def covsum_loop.simps)

section \<open>Properties of the segment list\<close>

text \<open>
  A list of segments that leads from \<open>lo\<close> to \<open>hi\<close>: every segment is non-empty and
  starts where the previous one ends.
\<close>

fun chain :: "nat \<Rightarrow> nat \<Rightarrow> 'd Track list \<Rightarrow> bool" where
  "chain lo hi [] = (lo = hi)"
| "chain lo hi (t # ts) = (trk_start t = lo \<and> lo < trk_end t \<and> chain (trk_end t) hi ts)"

text \<open>Each segment's end is the next segment's start.\<close>

definition contiguous :: "'d Track list \<Rightarrow> bool" where
  "contiguous tline \<longleftrightarrow> (\<forall>(a, b) \<in> set (zip tline (tl tline)). trk_end a = trk_start b)"

text \<open>
  The invariant of a segment list over an array of length \<open>n\<close>: it begins at 0, its
  last segment ends at \<open>n\<close>, it is contiguous and strictly ordered by start, and no
  segment is empty.
\<close>

definition segment_cover :: "nat \<Rightarrow> 'd Track list \<Rightarrow> bool" where
  "segment_cover n tline \<longleftrightarrow>
     tline \<noteq> [] \<and> trk_start (hd tline) = 0 \<and> trk_end (last tline) = n \<and>
     contiguous tline \<and>
     sorted_wrt (\<lambda>a b. trk_start a < trk_start b) tline \<and>
     (\<forall>t \<in> set tline. trk_start t < trk_end t)"

lemma contiguous_Cons2 [simp]:
  "contiguous (a # b # rest) \<longleftrightarrow> trk_end a = trk_start b \<and> contiguous (b # rest)"
  by (simp add: contiguous_def)

lemma contiguous_single [simp]: "contiguous [a]" "contiguous []"
  by (simp_all add: contiguous_def)

lemma chain_lower: "chain lo hi tline \<Longrightarrow> \<forall>t \<in> set tline. lo \<le> trk_start t \<and> trk_start t < trk_end t \<and> trk_end t \<le> hi"
proof (induction tline arbitrary: lo)
  case Nil
  then show ?case by simp
next
  case (Cons t ts)
  from Cons.prems have c: "trk_start t = lo" "lo < trk_end t" "chain (trk_end t) hi ts" by auto
  from Cons.IH[OF c(3)] have ih: "\<forall>x \<in> set ts. trk_end t \<le> trk_start x \<and> trk_start x < trk_end x \<and> trk_end x \<le> hi" .
  have "trk_end t \<le> hi"
  proof (cases ts)
    case Nil
    with c(3) show ?thesis by simp
  next
    case (Cons x xs)
    with ih have "trk_end t \<le> trk_start x \<and> trk_start x < trk_end x \<and> trk_end x \<le> hi" by simp
    then show ?thesis by linarith
  qed
  with c ih show ?case by fastforce
qed

lemma chain_le: "chain lo hi tline \<Longrightarrow> lo \<le> hi"
  by (induction tline arbitrary: lo) (auto dest: less_imp_le order_trans)

lemma chain_sorted: "chain lo hi tline \<Longrightarrow> sorted_wrt (\<lambda>a b. trk_start a < trk_start b) tline"
proof (induction tline arbitrary: lo)
  case Nil
  then show ?case by simp
next
  case (Cons t ts)
  from Cons.prems have c: "trk_start t = lo" "lo < trk_end t" "chain (trk_end t) hi ts" by auto
  from chain_lower[OF c(3)] c have "\<forall>x \<in> set ts. trk_start t < trk_start x" by fastforce
  with Cons.IH[OF c(3)] show ?case by simp
qed

lemma chain_iff:
  "tline \<noteq> [] \<Longrightarrow>
   chain lo hi tline \<longleftrightarrow>
     trk_start (hd tline) = lo \<and> trk_end (last tline) = hi \<and> contiguous tline \<and>
     (\<forall>t \<in> set tline. trk_start t < trk_end t)"
proof (induction tline arbitrary: lo)
  case Nil
  then show ?case by simp
next
  case (Cons t ts)
  show ?case
  proof (cases ts)
    case Nil
    then show ?thesis by (cases "trk_start t = lo") auto
  next
    case (Cons b rest)
    have ih: "chain (trk_end t) hi (b # rest) \<longleftrightarrow>
      trk_start b = trk_end t \<and> trk_end (last (b # rest)) = hi \<and> contiguous (b # rest) \<and>
      (\<forall>x \<in> set (b # rest). trk_start x < trk_end x)"
      using Cons.IH[of "trk_end t"] Cons by simp
    have "chain lo hi (t # b # rest) \<longleftrightarrow>
            trk_start t = lo \<and> lo < trk_end t \<and> chain (trk_end t) hi (b # rest)"
      by simp
    also have "\<dots> \<longleftrightarrow> trk_start t = lo \<and> trk_end (last (b # rest)) = hi \<and>
        contiguous (t # b # rest) \<and> (\<forall>x \<in> set (t # b # rest). trk_start x < trk_end x)"
      unfolding ih by (simp only: contiguous_Cons2 list.set ball_simps) metis
    finally show ?thesis using Cons by simp
  qed
qed

lemma segment_cover_chain: "segment_cover n tline \<longleftrightarrow> tline \<noteq> [] \<and> chain 0 n tline"
  using chain_iff[of tline 0 n] chain_sorted[of 0 n tline]
  by (auto simp: segment_cover_def)

lemma chain_snoc:
  "chain lo mid ts \<Longrightarrow> mid < e \<Longrightarrow> chain lo e (ts @ [\<lparr>trk_start = mid, trk_end = e, score = sc\<rparr>])"
  by (induction ts arbitrary: lo) auto

lemma chain_merge_pass: "chain lo hi tline \<Longrightarrow> chain lo hi (merge_pass ops thres tline)"
proof (induction ops thres tline arbitrary: lo rule: merge_pass.induct)
  case (1 ops thres a b rest)
  from "1.prems" have c: "trk_start a = lo" "lo < trk_end a" "trk_start b = trk_end a"
    "trk_end a < trk_end b" "chain (trk_end b) hi rest" by auto
  show ?case
  proof (cases "dle ops (nerr ops a b) thres")
    case True
    from c have "chain lo hi (b\<lparr>trk_start := trk_start a, score := nwavg ops a b\<rparr> # rest)" by simp
    from "1.IH"(1)[OF True this] True show ?thesis by simp
  next
    case False
    from c have "chain (trk_end a) hi (b # rest)" by simp
    from "1.IH"(2)[OF False this] False c show ?thesis by simp
  qed
qed simp_all

lemma merge_pass_nonempty: "tline \<noteq> [] \<Longrightarrow> merge_pass ops thres tline \<noteq> []"
  by (induction ops thres tline rule: merge_pass.induct) simp_all

lemma segment_cover_merge_pass:
  "segment_cover n tline \<Longrightarrow> segment_cover n (merge_pass ops thres tline)"
  by (simp add: segment_cover_chain chain_merge_pass merge_pass_nonempty)

text \<open>
  Every segment is a run of equal depth values and carries that value, scaled by the
  normalisation factor.
\<close>

definition runs :: "real \<Rightarrow> TCoverage \<Rightarrow> real Track list \<Rightarrow> bool" where
  "runs normFactor cov tline \<longleftrightarrow>
     (\<forall>t \<in> set tline. \<forall>i \<in> {trk_start t..<trk_end t}.
        cov ! trk_start t = cov ! i \<and> score t = normFactor * real (unat (cov ! i)))"

text \<open>Neighbouring segments hold different depth values: no run is split.\<close>

fun adjacent_differ :: "TCoverage \<Rightarrow> real Track list \<Rightarrow> bool" where
  "adjacent_differ cov (a # b # rest) =
     (cov ! trk_start a \<noteq> cov ! trk_start b \<and> adjacent_differ cov (b # rest))"
| "adjacent_differ cov tline = True"

text \<open>The maximal run-length encoding of a coverage vector.\<close>

definition maximal_rle :: "real \<Rightarrow> TCoverage \<Rightarrow> real Track list \<Rightarrow> bool" where
  "maximal_rle normFactor cov tline \<longleftrightarrow>
     segment_cover (length cov) tline \<and> runs normFactor cov tline \<and> adjacent_differ cov tline"

text \<open>The invariant of the run-length loop before it reads \<open>cov[i]\<close>.\<close>

definition rle_inv ::
  "real \<Rightarrow> TCoverage \<Rightarrow> nat \<Rightarrow> real Track list \<times> nat \<times> nat \<times> real \<Rightarrow> bool" where
  "rle_inv normFactor cov i s =
     (case s of (tline, wb, we, wval) \<Rightarrow>
        chain 0 wb tline \<and> wb \<le> we \<and> we + 1 = i \<and> i \<le> length cov \<and>
        runs normFactor cov tline \<and> adjacent_differ cov tline \<and>
        (\<forall>j. wb \<le> j \<and> j < i \<longrightarrow> cov ! wb = cov ! j) \<and>
        wval = real (unat (cov ! wb)) \<and>
        (tline \<noteq> [] \<longrightarrow> cov ! trk_start (last tline) \<noteq> cov ! wb))"

lemma runs_snoc:
  "runs nf cov ts \<Longrightarrow> \<forall>i \<in> {trk_start x..<trk_end x}. cov ! trk_start x = cov ! i \<and> score x = nf * real (unat (cov ! i))
    \<Longrightarrow> runs nf cov (ts @ [x])"
  unfolding runs_def by (metis Un_iff empty_iff empty_set insert_iff list.simps(15) set_append)

lemma adjacent_differ_snoc:
  "adjacent_differ cov ts \<Longrightarrow> (ts \<noteq> [] \<longrightarrow> cov ! trk_start (last ts) \<noteq> cov ! trk_start x)
     \<Longrightarrow> adjacent_differ cov (ts @ [x])"
  by (induction cov ts rule: adjacent_differ.induct) simp_all

lemma real_unat_eq_iff: "real (unat (a :: u16)) = real (unat b) \<longleftrightarrow> a = b"
  by (metis of_nat_eq_iff word_unat_eq_iff)

lemma rle_inv_step_eq:
  assumes "rle_inv nf cov i (tline, wb, we, wval)" "i < length cov" "real (unat (cov ! i)) = wval"
  shows "rle_inv nf cov (i + 1) (tline, wb, we + 1, wval)"
proof -
  from assms(1) have wv: "wval = real (unat (cov ! wb))" by (simp add: rle_inv_def)
  with assms(3) have "real (unat (cov ! i)) = real (unat (cov ! wb))" by (simp only:)
  then have eq: "cov ! i = cov ! wb" by (simp only: real_unat_eq_iff)
  have "\<forall>j. wb \<le> j \<and> j < i + 1 \<longrightarrow> cov ! wb = cov ! j"
  proof (intro allI impI)
    fix j assume j: "wb \<le> j \<and> j < i + 1"
    show "cov ! wb = cov ! j"
    proof (cases "j = i")
      case True
      with eq show ?thesis by simp
    next
      case False
      with j have "wb \<le> j \<and> j < i" by simp
      with assms(1) show ?thesis by (simp add: rle_inv_def)
    qed
  qed
  with assms show ?thesis by (simp add: rle_inv_def)
qed

lemma rle_inv_step_neq:
  assumes "rle_inv nf cov i (tline, wb, we, wval)" "i < length cov" "real (unat (cov ! i)) \<noteq> wval"
  shows "rle_inv nf cov (i + 1)
           (tline @ [\<lparr>trk_start = wb, trk_end = we + 1, score = nf * wval\<rparr>], i, i, real (unat (cov ! i)))"
proof -
  let ?x = "\<lparr>trk_start = wb, trk_end = we + 1, score = nf * wval\<rparr>"
  from assms(1) have inv: "chain 0 wb tline" "wb \<le> we" "we + 1 = i" "runs nf cov tline"
    "adjacent_differ cov tline" "\<forall>j. wb \<le> j \<and> j < i \<longrightarrow> cov ! wb = cov ! j"
    "wval = real (unat (cov ! wb))" "tline \<noteq> [] \<longrightarrow> cov ! trk_start (last tline) \<noteq> cov ! wb"
    by (simp_all add: rle_inv_def)
  from inv(7) assms(3) have "real (unat (cov ! i)) \<noteq> real (unat (cov ! wb))" by simp
  then have neq: "cov ! wb \<noteq> cov ! i" by (auto simp only: real_unat_eq_iff)
  have c: "chain 0 i (tline @ [?x])"
    using chain_snoc[OF inv(1), of "we + 1" "nf * wval"] inv(2,3) by simp
  have r: "runs nf cov (tline @ [?x])"
    using inv(4,6,7,3) by (intro runs_snoc) auto
  have a: "adjacent_differ cov (tline @ [?x])"
    using inv(5,8) by (intro adjacent_differ_snoc) auto
  have "\<forall>j. i \<le> j \<and> j < i + 1 \<longrightarrow> cov ! i = cov ! j"
    by (auto simp: le_less_Suc_eq)
  with c r a neq assms(2) show ?thesis by (simp add: rle_inv_def)
qed

lemma coverage_track_loop_inv:
  "rle_inv nf cov i (tline, wb, we, wval) \<Longrightarrow> cs = drop i cov \<Longrightarrow>
   rle_inv nf cov (length cov) (coverage_track_loop nf cs i (tline, wb, we, wval))"
proof (induction cs arbitrary: i tline wb we wval)
  case Nil
  then have "i = length cov" by (simp add: rle_inv_def)
  with Nil show ?case by simp
next
  case (Cons c cs)
  from Cons.prems(2) have i: "i < length cov"
    by (metis drop_eq_Nil list.distinct(1) not_le)
  with Cons.prems(2) have c: "c = cov ! i" and cs: "cs = drop (i + 1) cov"
    by (simp_all add: Cons_nth_drop_Suc[symmetric])
  show ?case
  proof (cases "real (unat c) = wval")
    case True
    from rle_inv_step_eq[OF Cons.prems(1) i] True c
    have "rle_inv nf cov (i + 1) (tline, wb, we + 1, wval)" by simp
    from Cons.IH[OF this cs] True show ?thesis by simp
  next
    case False
    from rle_inv_step_neq[OF Cons.prems(1) i] False c
    have "rle_inv nf cov (i + 1)
           (tline @ [\<lparr>trk_start = wb, trk_end = we + 1, score = nf * wval\<rparr>], i, i, real (unat c))"
      by simp
    from Cons.IH[OF this cs] False show ?thesis by simp
  qed
qed

lemma rle_inv_final:
  assumes "rle_inv nf cov (length cov) (tline, wb, we, wval)"
  shows "maximal_rle nf cov (tline @ [\<lparr>trk_start = wb, trk_end = we + 1, score = nf * wval\<rparr>])"
proof -
  let ?x = "\<lparr>trk_start = wb, trk_end = we + 1, score = nf * wval\<rparr>"
  from assms have inv: "chain 0 wb tline" "wb \<le> we" "we + 1 = length cov" "runs nf cov tline"
    "adjacent_differ cov tline" "\<forall>j. wb \<le> j \<and> j < length cov \<longrightarrow> cov ! wb = cov ! j"
    "wval = real (unat (cov ! wb))" "tline \<noteq> [] \<longrightarrow> cov ! trk_start (last tline) \<noteq> cov ! wb"
    by (simp_all add: rle_inv_def)
  have c: "chain 0 (length cov) (tline @ [?x])"
    using chain_snoc[OF inv(1), of "we + 1" "nf * wval"] inv(2,3) by simp
  have r: "runs nf cov (tline @ [?x])"
    using inv(4,6,7,3) by (intro runs_snoc) auto
  have a: "adjacent_differ cov (tline @ [?x])"
    using inv(5,8) by (intro adjacent_differ_snoc) auto
  from c r a show ?thesis by (simp add: maximal_rle_def segment_cover_chain)
qed

lemma coverage_track_maximal:
  assumes "cov \<noteq> []"
  shows "\<exists>tline. coverage_track nf cov = Inr tline \<and> maximal_rle nf cov tline"
proof -
  from assms obtain c0 cs where cov: "cov = c0 # cs" by (cases cov) auto
  have init: "rle_inv nf cov 1 ([], 0, 0, real (unat c0))"
    by (simp add: rle_inv_def cov runs_def)
  have "cs = drop 1 cov" by (simp add: cov)
  from coverage_track_loop_inv[OF init this]
  have fin: "rle_inv nf cov (length cov) (coverage_track_loop nf cs 1 ([], 0, 0, real (unat c0)))" .
  obtain tline wb we wval where
    st: "coverage_track_loop nf cs 1 ([], 0, 0, real (unat c0)) = (tline, wb, we, wval)"
    by (cases "coverage_track_loop nf cs 1 ([], 0, 0, real (unat c0))") auto
  from fin st rle_inv_final[of nf cov tline wb we wval] show ?thesis
    by (simp add: coverage_track_def cov)
qed


text \<open>
  Re-expansion of a segment list into a per-base array: each segment's score is
  assigned to every base of \<open>[start, end)\<close>.
\<close>

definition assign_segment :: "real Track \<Rightarrow> real list \<Rightarrow> real list" where
  "assign_segment t arr = fold (\<lambda>i a. a[i := score t]) [trk_start t..<trk_end t] arr"

definition expand_segments :: "real Track list \<Rightarrow> real list \<Rightarrow> real list" where
  "expand_segments tline arr = fold assign_segment tline arr"

lemma fold_update_length: "length (fold (\<lambda>i a. a[i := v]) is arr) = length arr"
  by (induction "is" arbitrary: arr) simp_all

lemma fold_update_nth:
  "j < length arr \<Longrightarrow> fold (\<lambda>i a. a[i := v]) is arr ! j = (if j \<in> set is then v else arr ! j)"
proof (induction "is" arbitrary: arr)
  case Nil
  then show ?case by simp
next
  case (Cons i "is")
  from Cons.prems have "j < length (arr[i := v])" by simp
  from Cons.IH[OF this] Cons.prems show ?case by (simp add: nth_list_update)
qed

lemma assign_segment_length [simp]: "length (assign_segment t arr) = length arr"
  by (simp add: assign_segment_def fold_update_length)

lemma assign_segment_nth:
  "j < length arr \<Longrightarrow>
   assign_segment t arr ! j = (if trk_start t \<le> j \<and> j < trk_end t then score t else arr ! j)"
  by (simp add: assign_segment_def fold_update_nth)

lemma expand_segments_length [simp]: "length (expand_segments tline arr) = length arr"
  unfolding expand_segments_def by (induction tline arbitrary: arr) simp_all

lemma runs_Cons: "runs nf cov (t # ts) \<longleftrightarrow> runs nf cov [t] \<and> runs nf cov ts"
  by (auto simp: runs_def)

lemma expand_segments_nth:
  "chain lo hi tline \<Longrightarrow> runs 1 cov tline \<Longrightarrow> j < length arr \<Longrightarrow>
   expand_segments tline arr ! j = (if lo \<le> j \<and> j < hi then real (unat (cov ! j)) else arr ! j)"
proof (induction tline arbitrary: lo arr)
  case Nil
  then show ?case by (simp add: expand_segments_def)
next
  case (Cons t ts)
  from Cons.prems(1) have c: "trk_start t = lo" "lo < trk_end t" "chain (trk_end t) hi ts" by auto
  from Cons.prems(2) have r: "runs 1 cov ts"
    and rt: "\<forall>i \<in> {trk_start t..<trk_end t}. score t = real (unat (cov ! i))"
    by (simp_all add: runs_def)
  from chain_le[OF c(3)] have le: "trk_end t \<le> hi" .
  have j': "j < length (assign_segment t arr)" using Cons.prems(3) by simp
  have "expand_segments (t # ts) arr ! j = expand_segments ts (assign_segment t arr) ! j"
    by (simp add: expand_segments_def)
  also have "\<dots> = (if trk_end t \<le> j \<and> j < hi then real (unat (cov ! j))
                    else assign_segment t arr ! j)"
    by (rule Cons.IH[OF c(3) r j'])
  also have "\<dots> = (if lo \<le> j \<and> j < hi then real (unat (cov ! j)) else arr ! j)"
  proof (cases "lo \<le> j \<and> j < trk_end t")
    case True
    with rt c(1) have "score t = real (unat (cov ! j))" by simp
    with True c le Cons.prems(3) show ?thesis by (simp add: assign_segment_nth)
  next
    case False
    with c le Cons.prems(3) show ?thesis by (auto simp: assign_segment_nth)
  qed
  finally show ?case .
qed

lemma expand_maximal_rle:
  assumes "maximal_rle 1 cov tline" "length arr = length cov"
  shows "expand_segments tline arr = map (\<lambda>c. real (unat c)) cov"
proof (rule nth_equalityI)
  show "length (expand_segments tline arr) = length (map (\<lambda>c. real (unat c)) cov)"
    using assms(2) by simp
next
  fix j assume "j < length (expand_segments tline arr)"
  then have j: "j < length arr" by simp
  from assms(1) have "chain 0 (length cov) tline" "runs 1 cov tline"
    by (simp_all add: maximal_rle_def segment_cover_chain)
  from expand_segments_nth[OF this j] j assms(2)
  show "expand_segments tline arr ! j = map (\<lambda>c. real (unat c)) cov ! j" by simp
qed

lemma chain_Nil_iff: "chain n n tline \<Longrightarrow> tline = []"
proof (cases tline)
  case Nil
  then show ?thesis by simp
next
  case (Cons t ts)
  assume c: "chain n n tline"
  from chain_lower[OF c] Cons have "n \<le> trk_start t \<and> trk_start t < trk_end t \<and> trk_end t \<le> n" by simp
  then show ?thesis by linarith
qed

lemma head_end_not_less:
  assumes "chain lo n (a # r1)" "chain lo n (b # r2)" "runs nf cov [b]" "adjacent_differ cov (a # r1)"
  shows "\<not> trk_end a < trk_end b"
proof
  assume lt: "trk_end a < trk_end b"
  from assms(1) have a: "trk_start a = lo" "lo < trk_end a" "chain (trk_end a) n r1" by auto
  from assms(2) have b: "trk_start b = lo" "chain (trk_end b) n r2" by auto
  from chain_le[OF b(2)] lt have "trk_end a \<noteq> n" by simp
  with a(3) obtain c r1' where r1: "r1 = c # r1'" by (cases r1) auto
  with a(3) have c: "trk_start c = trk_end a" by simp
  from assms(4) r1 c a have d: "cov ! lo \<noteq> cov ! trk_end a" by simp
  from assms(3) b(1) a(2) lt have "cov ! lo = cov ! trk_end a" by (simp add: runs_def)
  with d show False by simp
qed

lemma adjacent_differ_tail: "adjacent_differ cov (a # r) \<Longrightarrow> adjacent_differ cov r"
  by (cases r) simp_all

lemma maximal_rle_unique_chain:
  "chain lo n t1 \<Longrightarrow> chain lo n t2 \<Longrightarrow> runs nf cov t1 \<Longrightarrow> runs nf cov t2 \<Longrightarrow>
   adjacent_differ cov t1 \<Longrightarrow> adjacent_differ cov t2 \<Longrightarrow> t1 = t2"
proof (induction t1 arbitrary: lo t2)
  case Nil
  then have "lo = n" by simp
  with Nil.prems(2) have "t2 = []" by (simp add: chain_Nil_iff)
  then show ?case by simp
next
  case (Cons a r1)
  from Cons.prems(1) have a: "trk_start a = lo" "lo < trk_end a" "chain (trk_end a) n r1" by auto
  from chain_le[OF a(3)] a(2) have "lo \<noteq> n" by simp
  with Cons.prems(2) obtain b r2 where t2: "t2 = b # r2" by (cases t2) auto
  with Cons.prems(2) have b: "trk_start b = lo" "lo < trk_end b" "chain (trk_end b) n r2" by auto
  from Cons.prems(3) have ra: "runs nf cov [a]" "runs nf cov r1" using runs_Cons by blast+
  from Cons.prems(4) t2 have rb: "runs nf cov [b]" "runs nf cov r2" using runs_Cons by blast+
  from Cons.prems(2,6) t2 have cb: "chain lo n (b # r2)" and ab: "adjacent_differ cov (b # r2)"
    by simp_all
  have "\<not> trk_end a < trk_end b"
    by (rule head_end_not_less[OF Cons.prems(1) cb rb(1) Cons.prems(5)])
  moreover have "\<not> trk_end b < trk_end a"
    by (rule head_end_not_less[OF cb Cons.prems(1) ra(1) ab])
  ultimately have e: "trk_end a = trk_end b" by simp
  from ra(1) a have "score a = nf * real (unat (cov ! lo))" by (simp add: runs_def)
  moreover from rb(1) b have "score b = nf * real (unat (cov ! lo))" by (simp add: runs_def)
  ultimately have "a = b" using a(1) b(1) e by simp
  moreover have "r1 = r2"
  proof (rule Cons.IH[OF a(3) _ ra(2) rb(2)])
    show "chain (trk_end a) n r2" using b(3) e by simp
    show "adjacent_differ cov r1" by (rule adjacent_differ_tail[OF Cons.prems(5)])
    show "adjacent_differ cov r2" by (rule adjacent_differ_tail[OF ab])
  qed
  ultimately show ?case using t2 by simp
qed

lemma maximal_rle_unique:
  "maximal_rle nf cov t1 \<Longrightarrow> maximal_rle nf cov t2 \<Longrightarrow> t1 = t2"
  unfolding maximal_rle_def segment_cover_chain
  using maximal_rle_unique_chain by blast


lemma reduce_loop_chain_aux:
  assumes "reduce_loop ops resolution origs red tline = Some y"
  shows "\<forall>tline'. y = Inr tline' \<longrightarrow> chain lo hi tline \<longrightarrow> tline \<noteq> [] \<longrightarrow>
           chain lo hi tline' \<and> tline' \<noteq> []"
  by (rule reduce_loop.raw_induct[where P = "\<lambda>ops resolution origs red tline y.
        \<forall>tline'. y = Inr tline' \<longrightarrow> chain lo hi tline \<longrightarrow> tline \<noteq> [] \<longrightarrow>
           chain lo hi tline' \<and> tline' \<noteq> []", OF _ assms])
     (auto split: if_splits simp: Let_def chain_merge_pass merge_pass_nonempty)

lemma reduce_loop_cover:
  assumes "segment_cover n tline"
    and "reduce_loop ops resolution origs red tline = Some (Inr tline')"
  shows "segment_cover n tline'"
  using reduce_loop_chain_aux[OF assms(2), of 0 n] assms(1) by (simp add: segment_cover_chain)

lemma reduce_file_size_disabled:
  "resolution \<le> 0 \<or> 1 \<le> resolution \<Longrightarrow> reduce_file_size ops resolution tline = Some (Inr tline)"
  by (auto simp: reduce_file_size_def)

lemma reduce_file_size_cover:
  assumes "segment_cover n tline" and "reduce_file_size ops resolution tline = Some (Inr tline')"
  shows "segment_cover n tline'"
proof (cases "resolution > 0 \<and> resolution < 1")
  case True
  with assms(2)
  have "reduce_loop ops (of_float ops resolution) (length tline) (of_uint ops 1) tline = Some (Inr tline')"
    by (simp add: reduce_file_size_def)
  from reduce_loop_cover[OF assms(1) this] show ?thesis .
next
  case False
  with assms show ?thesis by (simp add: reduce_file_size_def)
qed

lemma coverage_track_example:
  "coverage_track 1 [0, 0, 3, 3, 3, 0] =
     Inr [\<lparr>trk_start = 0, trk_end = 2, score = 0\<rparr>, \<lparr>trk_start = 2, trk_end = 5, score = 3\<rparr>,
          \<lparr>trk_start = 5, trk_end = 6, score = 0\<rparr>]"
  by (simp add: coverage_track_def)

text \<open>
  Claim C3. For a non-empty coverage vector the first pass returns the maximal
  run-length encoding, and that encoding is unique: every run of consecutive equal
  values is exactly one segment. With the resolution disabled, \<open>[0,0,3,3,3,0]\<close>
  gives the segments \<open>(0,2,0), (2,5,3), (5,6,0)\<close>, whatever the arithmetic of the
  reduction is.
\<close>

theorem coverage_track_maximal_rle:
  "(cov \<noteq> [] \<longrightarrow>
      (\<exists>tline. coverage_track normFactor cov = Inr tline \<and> maximal_rle normFactor cov tline \<and>
               (\<forall>tline'. maximal_rle normFactor cov tline' \<longrightarrow> tline' = tline))) \<and>
   (resolution \<le> 0 \<or> 1 \<le> resolution \<longrightarrow>
      segment_compressor ops 1 resolution [0, 0, 3, 3, 3, 0] =
        Some (Inr [\<lparr>trk_start = 0, trk_end = 2, score = 0\<rparr>, \<lparr>trk_start = 2, trk_end = 5, score = 3\<rparr>,
                   \<lparr>trk_start = 5, trk_end = 6, score = 0\<rparr>]))"
proof (intro conjI impI)
  assume "cov \<noteq> []"
  from coverage_track_maximal[OF this, of normFactor]
  obtain tline where t: "coverage_track normFactor cov = Inr tline" "maximal_rle normFactor cov tline"
    by blast
  from t(2) have "\<forall>tline'. maximal_rle normFactor cov tline' \<longrightarrow> tline' = tline"
    using maximal_rle_unique by blast
  with t show "\<exists>tline. coverage_track normFactor cov = Inr tline \<and> maximal_rle normFactor cov tline \<and>
               (\<forall>tline'. maximal_rle normFactor cov tline' \<longrightarrow> tline' = tline)"
    by blast
next
  assume "resolution \<le> 0 \<or> 1 \<le> resolution"
  then show "segment_compressor ops 1 resolution [0, 0, 3, 3, 3, 0] =
        Some (Inr [\<lparr>trk_start = 0, trk_end = 2, score = 0\<rparr>, \<lparr>trk_start = 2, trk_end = 5, score = 3\<rparr>,
                   \<lparr>trk_start = 5, trk_end = 6, score = 0\<rparr>])"
    by (simp add: segment_compressor_def coverage_track_example reduce_file_size_disabled)
qed

theorem coverage_track_maximal_rle_witness:
  "coverage_track 1 [0, 0, 3, 3, 3, 0] =
     Inr [\<lparr>trk_start = 0, trk_end = 2, score = 0\<rparr>, \<lparr>trk_start = 2, trk_end = 5, score = 3\<rparr>,
          \<lparr>trk_start = 5, trk_end = 6, score = 0\<rparr>] \<and>
   maximal_rle 1 [0, 0, 3, 3, 3, 0]
     [\<lparr>trk_start = 0, trk_end = 2, score = 0\<rparr>, \<lparr>trk_start = 2, trk_end = 5, score = 3\<rparr>,
      \<lparr>trk_start = 5, trk_end = 6, score = 0\<rparr>] \<and>
   segment_compressor exact_ops 1 0 [0, 0, 3, 3, 3, 0] =
     Some (Inr [\<lparr>trk_start = 0, trk_end = 2, score = 0\<rparr>, \<lparr>trk_start = 2, trk_end = 5, score = 3\<rparr>,
                \<lparr>trk_start = 5, trk_end = 6, score = 0\<rparr>])"
proof -
  have e: "coverage_track 1 [0, 0, 3, 3, 3, 0] =
     Inr [\<lparr>trk_start = 0, trk_end = 2, score = 0\<rparr>, \<lparr>trk_start = 2, trk_end = 5, score = 3\<rparr>,
          \<lparr>trk_start = 5, trk_end = 6, score = 0\<rparr>]"
    by (rule coverage_track_example)
  from coverage_track_maximal_rle[where cov = "[0, 0, 3, 3, 3, 0]" and normFactor = 1
      and resolution = 0 and ops = exact_ops] e
  show ?thesis by simp
qed

text \<open>
  Claim C2. With the resolution at most 0 or at least 1 the compressor returns the
  run-length encoding unmodified, whatever the arithmetic of the reduction is, and
  with the normalisation factor 1 re-expanding the segments over any array of the
  same length gives back the coverage vector.
\<close>

theorem segment_compressor_roundtrip:
  "cov \<noteq> [] \<Longrightarrow> resolution \<le> 0 \<or> 1 \<le> resolution \<Longrightarrow>
   segment_compressor ops normFactor resolution cov = Some (coverage_track normFactor cov) \<and>
   (\<exists>tline. segment_compressor ops 1 resolution cov = Some (Inr tline) \<and>
      (\<forall>arr. length arr = length cov \<longrightarrow>
         expand_segments tline arr = map (\<lambda>c. real (unat c)) cov))"
proof -
  assume ne: "cov \<noteq> []" and res: "resolution \<le> 0 \<or> 1 \<le> resolution"
  have same: "segment_compressor ops nf resolution cov = Some (coverage_track nf cov)" for nf
    using res by (simp add: segment_compressor_def reduce_file_size_disabled split: sum.splits)
  from coverage_track_maximal[OF ne, of 1]
  obtain tline where t: "coverage_track 1 cov = Inr tline" "maximal_rle 1 cov tline" by blast
  from t(2) have "\<forall>arr. length arr = length cov \<longrightarrow>
         expand_segments tline arr = map (\<lambda>c. real (unat c)) cov"
    using expand_maximal_rle by blast
  with t(1) same show ?thesis by auto
qed

theorem segment_compressor_roundtrip_witness:
  "segment_compressor exact_ops 1 0 [0, 0, 3, 3, 3, 0] =
     Some (Inr [\<lparr>trk_start = 0, trk_end = 2, score = 0\<rparr>, \<lparr>trk_start = 2, trk_end = 5, score = 3\<rparr>,
                \<lparr>trk_start = 5, trk_end = 6, score = 0\<rparr>]) \<and>
   expand_segments
     [\<lparr>trk_start = 0, trk_end = 2, score = 0\<rparr>, \<lparr>trk_start = 2, trk_end = 5, score = 3\<rparr>,
      \<lparr>trk_start = 5, trk_end = 6, score = 0\<rparr>] [7, 7, 7, 7, 7, 7] = [0, 0, 3, 3, 3, 0]"
proof -
  have e: "segment_compressor exact_ops 1 0 [0, 0, 3, 3, 3, 0] =
     Some (Inr [\<lparr>trk_start = 0, trk_end = 2, score = 0\<rparr>, \<lparr>trk_start = 2, trk_end = 5, score = 3\<rparr>,
                \<lparr>trk_start = 5, trk_end = 6, score = 0\<rparr>])"
    by (simp add: segment_compressor_def coverage_track_example reduce_file_size_disabled)
  from segment_compressor_roundtrip[where cov = "[0, 0, 3, 3, 3, 0]" and resolution = 0
      and normFactor = 1 and ops = exact_ops] e
  have "\<forall>arr. length arr = 6 \<longrightarrow>
     expand_segments [\<lparr>trk_start = 0, trk_end = 2, score = 0\<rparr>, \<lparr>trk_start = 2, trk_end = 5, score = 3\<rparr>,
      \<lparr>trk_start = 5, trk_end = 6, score = 0\<rparr>] arr = [0, 0, 3, 3, 3, 0]"
    by simp
  then have "expand_segments [\<lparr>trk_start = 0, trk_end = 2, score = 0\<rparr>, \<lparr>trk_start = 2, trk_end = 5, score = 3\<rparr>,
      \<lparr>trk_start = 5, trk_end = 6, score = 0\<rparr>] [7, 7, 7, 7, 7, 7] = [0, 0, 3, 3, 3, 0]"
    by simp
  with e show ?thesis by simp
qed

lemma binary64_fields:
  "dadd binary64 = ieee_add" "dsub binary64 = ieee_sub" "dmul binary64 = ieee_mul"
  "ddiv binary64 = ieee_div" "dle binary64 = ieee_le" "dgt binary64 = (\<lambda>x y. ieee_less y x)"
  "to_uint32 binary64 = ieee_to_uint32" "dsort binary64 = sort_by ieee_less"
  "of_float binary64 = Finite"
  by (simp_all add: binary64_def)

lemma length_sort_by [simp]: "length (sort_by lt xs) = length xs"
proof -
  have "length (insert_by lt x ys) = Suc (length ys)" for x ys
    by (induction ys) simp_all
  then show ?thesis unfolding sort_by_def by (induction xs) simp_all
qed

text \<open>
  Evaluation of the reduction in binary64 on the segments \<open>(0,2,0), (2,4,6), (4,8,3)\<close>
  of the coverage \<open>[0,0,6,6,3,3,3,3]\<close> at the resolution \<open>1/2\<close>: the costs of the two
  pairs are 36 and 12, the first pass merges the last two segments into \<open>(2,8,4)\<close>,
  the second pass merges the rest into \<open>(0,8,3)\<close>. No operation rounds but the two
  quotients \<^verbatim>\<open>red\<close>.
\<close>

lemma of_uint_binary64: "of_uint binary64 = (\<lambda>n. round_double (real n))"
  by (simp add: binary64_def)

lemma nwavg_first_pair: "nwavg binary64 \<lparr>trk_start = 0, trk_end = 2, score = Finite 0\<rparr> \<lparr>trk_start = 2, trk_end = 4, score = Finite 6\<rparr> = Finite 3"
  unfolding nwavg_def Let_def
  by (simp add: of_uint_binary64 binary64_fields round_double_eval)

lemma nerr_first_pair: "nerr binary64 \<lparr>trk_start = 0, trk_end = 2, score = Finite 0\<rparr> \<lparr>trk_start = 2, trk_end = 4, score = Finite 6\<rparr> = Finite 36"
  unfolding nerr_def Let_def nwavg_first_pair
  by (simp add: of_uint_binary64 binary64_fields ieee_sub_def round_double_eval)

lemma nwavg_second_pair: "nwavg binary64 \<lparr>trk_start = 2, trk_end = 4, score = Finite 6\<rparr> \<lparr>trk_start = 4, trk_end = 8, score = Finite 3\<rparr> = Finite 4"
  unfolding nwavg_def Let_def
  by (simp add: of_uint_binary64 binary64_fields round_double_eval)

lemma nerr_second_pair: "nerr binary64 \<lparr>trk_start = 2, trk_end = 4, score = Finite 6\<rparr> \<lparr>trk_start = 4, trk_end = 8, score = Finite 3\<rparr> = Finite 12"
  unfolding nerr_def Let_def nwavg_second_pair
  by (simp add: of_uint_binary64 binary64_fields ieee_sub_def round_double_eval)

lemma nwavg_merged_pair: "nwavg binary64 \<lparr>trk_start = 0, trk_end = 2, score = Finite 0\<rparr> \<lparr>trk_start = 2, trk_end = 8, score = Finite 4\<rparr> = Finite 3"
  unfolding nwavg_def Let_def
  by (simp add: of_uint_binary64 binary64_fields round_double_eval)

lemma nerr_merged_pair: "nerr binary64 \<lparr>trk_start = 0, trk_end = 2, score = Finite 0\<rparr> \<lparr>trk_start = 2, trk_end = 8, score = Finite 4\<rparr> = Finite 24"
  unfolding nerr_def Let_def nwavg_merged_pair
  by (simp add: of_uint_binary64 binary64_fields ieee_sub_def round_double_eval)

lemma bp_index_first_pass: "bp_index binary64 (Finite 1) (Finite (1 / 2)) 3 = 0"
  unfolding bp_index_def Let_def
  by (simp add: of_uint_binary64 binary64_fields ieee_sub_def round_double_eval)

lemma red_first_pass: "ddiv binary64 (of_uint binary64 2) (of_uint binary64 3) = Finite (6004799503160661 / 2 ^ 53)"
  by (simp add: of_uint_binary64 binary64_fields round_double_eval)

lemma bp_index_second_pass: "bp_index binary64 (Finite (6004799503160661 / 2 ^ 53)) (Finite (1 / 2)) 2 = 0"
  unfolding bp_index_def Let_def
  by (simp add: of_uint_binary64 binary64_fields ieee_sub_def round_double_eval)


lemma merge_pass_example: "merge_pass binary64 (Finite 12)
     [\<lparr>trk_start = 0, trk_end = 2, score = Finite 0\<rparr>, \<lparr>trk_start = 2, trk_end = 4, score = Finite 6\<rparr>,
      \<lparr>trk_start = 4, trk_end = 8, score = Finite 3\<rparr>] =
   [\<lparr>trk_start = 0, trk_end = 2, score = Finite 0\<rparr>, \<lparr>trk_start = 2, trk_end = 8, score = Finite 4\<rparr>]"
  by (simp add: nerr_first_pair nwavg_second_pair nerr_second_pair binary64_fields)

lemma reduce_loop_example: "reduce_loop binary64 (Finite (1 / 2)) 3 (Finite 1)
     [\<lparr>trk_start = 0, trk_end = 2, score = Finite 0\<rparr>, \<lparr>trk_start = 2, trk_end = 4, score = Finite 6\<rparr>,
      \<lparr>trk_start = 4, trk_end = 8, score = Finite 3\<rparr>] =
   Some (Inr [\<lparr>trk_start = 0, trk_end = 8, score = Finite 3\<rparr>])"
proof -
  let ?T0 = "[\<lparr>trk_start = 0, trk_end = 2, score = Finite 0\<rparr>, \<lparr>trk_start = 2, trk_end = 4, score = Finite 6\<rparr>,
      \<lparr>trk_start = 4, trk_end = 8, score = Finite 3\<rparr>]"
  let ?T1 = "[\<lparr>trk_start = 0, trk_end = 2, score = Finite 0\<rparr>, \<lparr>trk_start = 2, trk_end = 8, score = Finite 4\<rparr>]"
  let ?T2 = "[\<lparr>trk_start = 0, trk_end = 8, score = Finite 3\<rparr>]"
  let ?R1 = "Finite (6004799503160661 / 2 ^ 53)"
  let ?R2 = "Finite (6004799503160661 / 2 ^ 54)"
  have l0: "length ?T0 = 3" and l1: "length ?T1 = 2" and l2: "length ?T2 = 1" by simp_all
  have me0: "dsort binary64 (merge_errs binary64 ?T0) = [Finite 12, Finite 36]"
    by (simp add: nerr_first_pair nerr_second_pair binary64_fields sort_by_def)
  have bp0: "bp_index binary64 (Finite 1) (Finite (1 / 2)) (length ?T0) = 0"
    unfolding l0 by (rule bp_index_first_pass)
  have mp0: "merge_pass binary64 ([Finite 12, Finite 36] ! unat (0 :: u32)) ?T0 = ?T1"
    by (simp add: nerr_first_pair nwavg_second_pair nerr_second_pair binary64_fields)
  have red1: "ddiv binary64 (of_uint binary64 (length ?T1)) (of_uint binary64 3) = ?R1"
    unfolding l1 by (rule red_first_pass)
  have c0: "length ?T0 > 1 \<and> dgt binary64 (Finite 1) (Finite (1 / 2))"
    by (simp add: binary64_fields)
  have s1: "reduce_loop binary64 (Finite (1 / 2)) 3 (Finite 1) ?T0 =
            reduce_loop binary64 (Finite (1 / 2)) 3 ?R1 ?T1"
    apply (subst reduce_loop.simps)
    unfolding Let_def me0 bp0 mp0 red1
    using c0 by simp
  have me1: "dsort binary64 (merge_errs binary64 ?T1) = [Finite 24]"
    by (simp add: nerr_merged_pair binary64_fields sort_by_def)
  have bp1: "bp_index binary64 ?R1 (Finite (1 / 2)) (length ?T1) = 0"
    unfolding l1 by (rule bp_index_second_pass)
  have merge_pass_example: "merge_pass binary64 ([Finite 24] ! unat (0 :: u32)) ?T1 = ?T2"
    by (simp add: nwavg_merged_pair nerr_merged_pair binary64_fields)
  have red2: "ddiv binary64 (of_uint binary64 (length ?T2)) (of_uint binary64 3) = ?R2"
    unfolding l2 by (simp add: of_uint_binary64 binary64_fields round_double_eval)
  have c1: "length ?T1 > 1 \<and> dgt binary64 ?R1 (Finite (1 / 2))"
    by (simp add: binary64_fields)
  have s2: "reduce_loop binary64 (Finite (1 / 2)) 3 ?R1 ?T1 =
            reduce_loop binary64 (Finite (1 / 2)) 3 ?R2 ?T2"
    apply (subst reduce_loop.simps)
    unfolding Let_def me1 bp1 merge_pass_example red2
    using c1 by simp
  have s3: "reduce_loop binary64 (Finite (1 / 2)) 3 ?R2 ?T2 = Some (Inr ?T2)"
    by (subst reduce_loop.simps) simp
  from s1 s2 s3 show ?thesis by simp
qed

lemma reduce_file_size_example: "reduce_file_size binary64 (1 / 2)
     [\<lparr>trk_start = 0, trk_end = 2, score = Finite 0\<rparr>, \<lparr>trk_start = 2, trk_end = 4, score = Finite 6\<rparr>,
      \<lparr>trk_start = 4, trk_end = 8, score = Finite 3\<rparr>] =
   Some (Inr [\<lparr>trk_start = 0, trk_end = 8, score = Finite 3\<rparr>])"
proof -
  have l0: "length [\<lparr>trk_start = 0, trk_end = 2, score = Finite 0\<rparr>, \<lparr>trk_start = 2, trk_end = 4, score = Finite 6\<rparr>,
      \<lparr>trk_start = 4, trk_end = 8, score = Finite 3\<rparr>] = 3" by simp
  have o1: "of_uint binary64 1 = Finite 1" by (simp add: of_uint_binary64 round_double_eval)
  show ?thesis unfolding reduce_file_size_def l0 o1 binary64_fields using reduce_loop_example by simp
qed

lemma coverage_track_example_runs: "coverage_track 1 [0, 0, 6, 6, 3, 3, 3, 3] =
     Inr [\<lparr>trk_start = 0, trk_end = 2, score = 0\<rparr>, \<lparr>trk_start = 2, trk_end = 4, score = 6\<rparr>,
          \<lparr>trk_start = 4, trk_end = 8, score = 3\<rparr>]"
  by (simp add: coverage_track_def)

lemma segment_compressor_example: "segment_compressor exact_ops 1 (1 / 2) [0, 0, 6, 6, 3, 3, 3, 3] =
     Some (Inr [\<lparr>trk_start = 0, trk_end = 8, score = 3\<rparr>])"
  by (simp add: segment_compressor_def coverage_track_example_runs reduce_file_size_def reduce_loop.simps bp_index_def
        exact_ops_def nerr_def nwavg_def Let_def)

lemma segment_cover_example: "segment_cover 8 [\<lparr>trk_start = 0, trk_end = 2, score = Finite 0\<rparr>, \<lparr>trk_start = 2, trk_end = 4, score = Finite 6\<rparr>,
      \<lparr>trk_start = 4, trk_end = 8, score = Finite 3\<rparr>]"
  by (simp add: segment_cover_def)

text \<open>
  Claim C8. The segment list after the run-length encoding and after any merge pass
  begins at 0, ends at the length of the array, is contiguous and is ordered by
  start; so is every list that the reduction loop returns from a state with such a
  list, and every list that the reduction and the compressor return. This holds for
  every threshold and every arithmetic of \<^verbatim>\<open>double\<close>: a merge replaces two adjacent
  segments by the segment from the start of the first to the end of the second,
  whatever decides it.
\<close>

theorem segment_list_invariant:
  "(cov \<noteq> [] \<longrightarrow>
      (\<exists>tline. coverage_track normFactor cov = Inr tline \<and> segment_cover (length cov) tline)) \<and>
   (segment_cover n tline \<longrightarrow> segment_cover n (merge_pass ops thres tline)) \<and>
   (segment_cover n tline \<longrightarrow>
      (\<forall>tline'. reduce_loop ops resolution origs red tline = Some (Inr tline') \<longrightarrow>
         segment_cover n tline')) \<and>
   (segment_cover n tline \<longrightarrow>
      (\<forall>tline'. reduce_file_size ops res tline = Some (Inr tline') \<longrightarrow>
         segment_cover n tline')) \<and>
   (\<forall>tline'. segment_compressor rops normFactor res cov = Some (Inr tline') \<longrightarrow>
      segment_cover (length cov) tline')"
proof (intro conjI impI allI)
  assume ne: "cov \<noteq> []"
  from coverage_track_maximal[OF ne, of normFactor]
  show "\<exists>tline. coverage_track normFactor cov = Inr tline \<and> segment_cover (length cov) tline"
    by (auto simp: maximal_rle_def)
next
  assume "segment_cover n tline"
  then show "segment_cover n (merge_pass ops thres tline)" by (rule segment_cover_merge_pass)
next
  fix tline'
  assume "segment_cover n tline" "reduce_loop ops resolution origs red tline = Some (Inr tline')"
  then show "segment_cover n tline'" by (rule reduce_loop_cover)
next
  fix tline'
  assume "segment_cover n tline" "reduce_file_size ops res tline = Some (Inr tline')"
  then show "segment_cover n tline'" by (rule reduce_file_size_cover)
next
  fix tline'
  assume r: "segment_compressor rops normFactor res cov = Some (Inr tline')"
  show "segment_cover (length cov) tline'"
  proof (cases "coverage_track normFactor cov")
    case (Inl e)
    with r show ?thesis by (simp add: segment_compressor_def)
  next
    case (Inr tline)
    then have ne: "cov \<noteq> []" by (auto simp: coverage_track_def)
    from coverage_track_maximal[OF ne, of normFactor] Inr
    have c: "segment_cover (length cov) tline" by (auto simp: maximal_rle_def)
    from r Inr have "reduce_file_size rops res tline = Some (Inr tline')"
      by (simp add: segment_compressor_def)
    from reduce_file_size_cover[OF c this] show ?thesis .
  qed
qed

theorem segment_list_invariant_witness:
  "coverage_track 1 [0, 0, 6, 6, 3, 3, 3, 3] =
     Inr [\<lparr>trk_start = 0, trk_end = 2, score = 0\<rparr>, \<lparr>trk_start = 2, trk_end = 4, score = 6\<rparr>,
      \<lparr>trk_start = 4, trk_end = 8, score = 3\<rparr>] \<and>
   segment_cover 8 ([\<lparr>trk_start = 0, trk_end = 2, score = 0\<rparr>, \<lparr>trk_start = 2, trk_end = 4, score = 6\<rparr>,
      \<lparr>trk_start = 4, trk_end = 8, score = 3\<rparr>] :: real Track list) \<and>
   segment_cover 8 [\<lparr>trk_start = 0, trk_end = 2, score = Finite 0\<rparr>, \<lparr>trk_start = 2, trk_end = 4, score = Finite 6\<rparr>,
      \<lparr>trk_start = 4, trk_end = 8, score = Finite 3\<rparr>] \<and>
   merge_pass binary64 (Finite 12) [\<lparr>trk_start = 0, trk_end = 2, score = Finite 0\<rparr>, \<lparr>trk_start = 2, trk_end = 4, score = Finite 6\<rparr>,
      \<lparr>trk_start = 4, trk_end = 8, score = Finite 3\<rparr>] =
     [\<lparr>trk_start = 0, trk_end = 2, score = Finite 0\<rparr>, \<lparr>trk_start = 2, trk_end = 8, score = Finite 4\<rparr>] \<and>
   segment_cover 8 [\<lparr>trk_start = 0, trk_end = 2, score = Finite 0\<rparr>, \<lparr>trk_start = 2, trk_end = 8, score = Finite 4\<rparr>] \<and>
   reduce_loop binary64 (Finite (1 / 2)) 3 (Finite 1) [\<lparr>trk_start = 0, trk_end = 2, score = Finite 0\<rparr>, \<lparr>trk_start = 2, trk_end = 4, score = Finite 6\<rparr>,
      \<lparr>trk_start = 4, trk_end = 8, score = Finite 3\<rparr>] =
     Some (Inr [\<lparr>trk_start = 0, trk_end = 8, score = Finite 3\<rparr>]) \<and>
   reduce_file_size binary64 (1 / 2) [\<lparr>trk_start = 0, trk_end = 2, score = Finite 0\<rparr>, \<lparr>trk_start = 2, trk_end = 4, score = Finite 6\<rparr>,
      \<lparr>trk_start = 4, trk_end = 8, score = Finite 3\<rparr>] =
     Some (Inr [\<lparr>trk_start = 0, trk_end = 8, score = Finite 3\<rparr>]) \<and>
   segment_cover 8 [\<lparr>trk_start = 0, trk_end = 8, score = Finite 3\<rparr>] \<and>
   segment_compressor exact_ops 1 (1 / 2) [0, 0, 6, 6, 3, 3, 3, 3] =
     Some (Inr [\<lparr>trk_start = 0, trk_end = 8, score = 3\<rparr>]) \<and>
   segment_cover 8 ([\<lparr>trk_start = 0, trk_end = 8, score = 3\<rparr>] :: real Track list)"
proof -
  let ?cov = "[0, 0, 6, 6, 3, 3, 3, 3] :: TCoverage"
  let ?T0 = "[\<lparr>trk_start = 0, trk_end = 2, score = Finite 0\<rparr>, \<lparr>trk_start = 2, trk_end = 4, score = Finite 6\<rparr>,
      \<lparr>trk_start = 4, trk_end = 8, score = Finite 3\<rparr>]"
  let ?T1 = "[\<lparr>trk_start = 0, trk_end = 2, score = Finite 0\<rparr>, \<lparr>trk_start = 2, trk_end = 8, score = Finite 4\<rparr>]"
  let ?T2 = "[\<lparr>trk_start = 0, trk_end = 8, score = Finite 3\<rparr>]"
  let ?R0 = "[\<lparr>trk_start = 0, trk_end = 2, score = 0\<rparr>, \<lparr>trk_start = 2, trk_end = 4, score = 6\<rparr>,
      \<lparr>trk_start = 4, trk_end = 8, score = 3\<rparr>] :: real Track list"
  let ?R2 = "[\<lparr>trk_start = 0, trk_end = 8, score = 3\<rparr>] :: real Track list"
  note t = segment_list_invariant[where cov = ?cov and normFactor = 1 and n = 8
      and tline = ?T0 and ops = binary64 and thres = "Finite 12" and resolution = "Finite (1 / 2)"
      and origs = 3 and red = "Finite 1" and res = "1 / 2" and rops = exact_ops]
  have l: "length ?cov = 8" by simp
  have ne: "?cov \<noteq> []" by simp
  from t ne obtain tline where a: "coverage_track 1 ?cov = Inr tline"
    and b: "segment_cover (length ?cov) tline"
    by blast
  from a coverage_track_example_runs have "tline = ?R0" by simp
  with b[unfolded l] have r0: "segment_cover 8 ?R0" by (simp only:)
  from t segment_cover_example have "segment_cover 8 (merge_pass binary64 (Finite 12) ?T0)" by blast
  then have t1: "segment_cover 8 ?T1" unfolding merge_pass_example .
  from t segment_cover_example reduce_loop_example have t2: "segment_cover 8 ?T2" by blast
  from t segment_compressor_example have "segment_cover (length ?cov) ?R2" by blast
  then have r2: "segment_cover 8 ?R2" unfolding l .
  from coverage_track_example_runs r0 segment_cover_example merge_pass_example t1 reduce_loop_example reduce_file_size_example t2 segment_compressor_example r2 show ?thesis by blast
qed

lemma bp_index_out_of_range: "bp_index binary64 (Finite 1) (Finite (1547425 / 2 ^ 87)) 3 = 2"
  unfolding bp_index_def Let_def
  by (simp add: of_uint_binary64 binary64_fields ieee_sub_def round_double_eval)

lemma reduce_file_size_out_of_range: "reduce_file_size binary64 (1547425 / 2 ^ 87)
     [\<lparr>trk_start = 0, trk_end = 2, score = Finite 0\<rparr>, \<lparr>trk_start = 2, trk_end = 5, score = Finite 3\<rparr>,
      \<lparr>trk_start = 5, trk_end = 6, score = Finite 0\<rparr>] = Some (Inl OutOfBounds)"
proof -
  let ?T = "[\<lparr>trk_start = 0, trk_end = 2, score = Finite 0\<rparr>, \<lparr>trk_start = 2, trk_end = 5, score = Finite 3\<rparr>,
      \<lparr>trk_start = 5, trk_end = 6, score = Finite 0\<rparr>]"
  let ?r = "Finite (1547425 / 2 ^ 87)"
  have l0: "length ?T = 3" by simp
  have o1: "of_uint binary64 1 = Finite 1" by (simp add: of_uint_binary64 round_double_eval)
  have c0: "length ?T > 1 \<and> dgt binary64 (Finite 1) ?r" by (simp add: binary64_fields)
  have le: "length (dsort binary64 (merge_errs binary64 ?T)) = 2" by (simp add: binary64_fields)
  have bp: "bp_index binary64 (Finite 1) ?r (length ?T) = 2" unfolding l0 by (rule bp_index_out_of_range)
  have "reduce_loop binary64 ?r 3 (Finite 1) ?T = Some (Inl OutOfBounds)"
    apply (subst reduce_loop.simps)
    unfolding Let_def bp
    using c0 le by simp
  then show ?thesis unfolding reduce_file_size_def l0 o1 binary64_fields by simp
qed

lemma nerr_nan: "nerr binary64 \<lparr>trk_start = 0, trk_end = 2, score = NaN\<rparr> \<lparr>trk_start = 2, trk_end = 4, score = PInf\<rparr> = NaN"
  unfolding nerr_def nwavg_def Let_def
  by (simp add: of_uint_binary64 binary64_fields ieee_sub_def round_double_eval)

lemma bp_index_nan: "bp_index binary64 (Finite 1) (Finite (1 / 2)) 2 = 0"
  unfolding bp_index_def Let_def
  by (simp add: of_uint_binary64 binary64_fields ieee_sub_def round_double_eval)

lemma red_nan: "ddiv binary64 (of_uint binary64 2) (of_uint binary64 2) = Finite 1"
  by (simp add: of_uint_binary64 binary64_fields round_double_eval)

lemma reduce_loop_nan_aux:
  assumes "reduce_loop ops resolution origs red tline = Some y"
  shows "\<not> (ops = binary64 \<and> resolution = Finite (1 / 2) \<and> origs = 2 \<and> red = Finite 1 \<and>
            tline = [\<lparr>trk_start = 0, trk_end = 2, score = NaN\<rparr>, \<lparr>trk_start = 2, trk_end = 4, score = PInf\<rparr>])"
proof (rule reduce_loop.raw_induct[where P = "\<lambda>ops resolution origs red tline y.
        \<not> (ops = binary64 \<and> resolution = Finite (1 / 2) \<and> origs = 2 \<and> red = Finite 1 \<and>
            tline = [\<lparr>trk_start = 0, trk_end = 2, score = NaN\<rparr>, \<lparr>trk_start = 2, trk_end = 4, score = PInf\<rparr>])",
        OF _ assms], goal_cases)
  case (1 f ops resolution origs red tline y)
  let ?T = "[\<lparr>trk_start = 0, trk_end = 2, score = NaN\<rparr>, \<lparr>trk_start = 2, trk_end = 4, score = PInf\<rparr>]"
  show ?case
  proof
    assume a: "ops = binary64 \<and> resolution = Finite (1 / 2) \<and> origs = 2 \<and> red = Finite 1 \<and> tline = ?T"
    then have e: "ops = binary64" "resolution = Finite (1 / 2)" "origs = 2" "red = Finite 1" "tline = ?T"
      by simp_all
    have l0: "length ?T = 2" by simp
    have c0: "length ?T > 1 \<and> dgt binary64 (Finite 1) (Finite (1 / 2))" by (simp add: binary64_fields)
    have me: "dsort binary64 (merge_errs binary64 ?T) = [NaN]"
      by (simp add: nerr_nan binary64_fields sort_by_def)
    have bp: "bp_index binary64 (Finite 1) (Finite (1 / 2)) (length ?T) = 0" unfolding l0 by (rule bp_index_nan)
    have mp: "merge_pass binary64 ([NaN] ! unat (0 :: u32)) ?T = ?T"
      by (simp add: nerr_nan binary64_fields)
    have rd: "ddiv binary64 (of_uint binary64 (length ?T)) (of_uint binary64 2) = Finite 1"
      unfolding l0 by (rule red_nan)
    from "1"(2) have "f binary64 (Finite (1 / 2)) 2 (Finite 1) ?T = Some y"
      unfolding e Let_def me bp mp rd using c0 by simp
    from "1"(1)[OF this] show False by simp
  qed
qed

lemma reduce_file_size_nan: "reduce_file_size binary64 (1 / 2)
     [\<lparr>trk_start = 0, trk_end = 2, score = NaN\<rparr>, \<lparr>trk_start = 2, trk_end = 4, score = PInf\<rparr>] = None"
proof (cases "reduce_loop binary64 (Finite (1 / 2)) 2 (Finite 1)
     [\<lparr>trk_start = 0, trk_end = 2, score = NaN\<rparr>, \<lparr>trk_start = 2, trk_end = 4, score = PInf\<rparr>]")
  case None
  have l0: "length [\<lparr>trk_start = 0, trk_end = 2, score = NaN\<rparr>, \<lparr>trk_start = 2, trk_end = 4, score = PInf\<rparr>] = 2" by simp
  have o1: "of_uint binary64 1 = Finite 1" by (simp add: of_uint_binary64 round_double_eval)
  from None show ?thesis unfolding reduce_file_size_def l0 o1 binary64_fields by simp
next
  case (Some y)
  from reduce_loop_nan_aux[OF this] show ?thesis by simp
qed


text \<open>
  Claim C4. The reduction loop does not terminate as the claim says once the
  arithmetic is that of binary64. At the resolution \<^verbatim>\<open>-r 1e-20\<close>, the \<^verbatim>\<open>float\<close>
  \<open>1547425 / 2\<^sup>8\<^sup>7\<close>, the difference \<^verbatim>\<open>1 - c.resolution\<close> rounds to 1: with three
  segments \<^verbatim>\<open>bpidx\<close> is \<open>3 - 1 = 2\<close>, the size of \<^verbatim>\<open>errs\<close>, and \<^verbatim>\<open>errs[bpidx]\<close> is
  read out of range in the first pass. With a normalisation factor of infinity the
  scores are NaN where the coverage is 0 and infinite elsewhere; every cost is NaN,
  no cost is \<^verbatim>\<open><=\<close> the threshold, a pass merges nothing and leaves \<^verbatim>\<open>red\<close> at 1: the
  loop does not return.
\<close>

theorem reduce_file_size_binary64:
  "reduce_file_size binary64 (1547425 / 2 ^ 87)
     [\<lparr>trk_start = 0, trk_end = 2, score = Finite 0\<rparr>, \<lparr>trk_start = 2, trk_end = 5, score = Finite 3\<rparr>,
      \<lparr>trk_start = 5, trk_end = 6, score = Finite 0\<rparr>] = Some (Inl OutOfBounds) \<and>
   reduce_file_size binary64 (1 / 2)
     [\<lparr>trk_start = 0, trk_end = 2, score = NaN\<rparr>, \<lparr>trk_start = 2, trk_end = 4, score = PInf\<rparr>] = None"
  using reduce_file_size_out_of_range reduce_file_size_nan by simp

section \<open>Properties of the window generator\<close>

lemma window_loop_zero_offset_aux:
  assumes "window_loop chr target_len wSize wOffset p intvec = Some r"
  shows "wOffset = 0 \<longrightarrow> \<not> p < target_len"
  by (rule window_loop.raw_induct[where P = "\<lambda>chr target_len wSize wOffset p intvec r. wOffset = 0 \<longrightarrow> \<not> p < target_len", OF _ assms])
     (auto split: if_splits simp: Let_def)

lemma window_loop_zero_offset:
  "p < target_len \<Longrightarrow> window_loop chr target_len wSize 0 p intvec = None"
  using window_loop_zero_offset_aux[of chr target_len wSize 0 p intvec]
  by (cases "window_loop chr target_len wSize 0 p intvec") auto

lemma sint_u32_small: "unat (w :: u32) < 2 ^ 31 \<Longrightarrow> sint w = int (unat w)"
proof -
  assume a: "unat w < 2 ^ 31"
  have u: "uint w = int (unat w)" by (rule uint_nat)
  have lo: "- (2 ^ 31) \<le> int (unat w)" by (rule order_trans[of _ 0]) simp_all
  have hi: "int (unat w) < 2 ^ 31" using a by (simp only: of_nat_less_numeral_power_cancel_iff)
  have "sint w = signed_take_bit 31 (uint w)" by (simp add: sint_uint)
  also have "\<dots> = int (unat w)"
    unfolding u by (rule signed_take_bit_int_eq_self[OF lo hi])
  finally show ?thesis .
qed

lemma unat_add_u32: "unat (a :: u32) + unat b < 2 ^ 32 \<Longrightarrow> unat (a + b) = unat a + unat b"
  using unat_add_lem[of a b] by simp


text \<open>
  A window of size \<open>wSize\<close> on a chromosome of length \<open>target_len\<close>.
\<close>

definition window_ok :: "nat \<Rightarrow> nat \<Rightarrow> ItvChr \<Rightarrow> bool" where
  "window_ok wSize target_len w \<longleftrightarrow>
     0 \<le> itv_start w \<and> itv_start w < itv_end w \<and> itv_end w \<le> int target_len \<and>
     itv_end w = min (itv_start w + int wSize) (int target_len)"

lemma window_loop_windows:
  assumes sz: "sz = unat wSize" and off: "off = unat wOffset" and len: "len = unat target_len"
    and sz0: "0 < sz" and off0: "0 < off" and len31: "len < 2 ^ 31"
    and nowrap: "\<forall>q. q < len \<and> off dvd q \<longrightarrow> q + sz < 2 ^ 32"
  shows "pn = unat p \<Longrightarrow> pn < len \<Longrightarrow> off dvd pn \<Longrightarrow>
    \<exists>ws. window_loop chr target_len wSize wOffset p intvec = Some (intvec @ ws) \<and> ws \<noteq> [] \<and>
      (\<forall>w \<in> set ws. int pn \<le> itv_start w \<and> window_ok sz len w) \<and>
      sorted_wrt (\<lambda>a b. itv_start a < itv_start b) ws \<and>
      (wOffset = wSize \<longrightarrow> partitions (int pn) (int len) ws)"
proof (induction "len - pn" arbitrary: pn p intvec rule: less_induct)
  case less
  let ?wl = "if target_len < p + wSize then target_len else p + wSize"
  let ?itv = "\<lparr>itv_start = sint p, itv_end = sint ?wl,
               itv_id = chr @ '':'' @ lexical_cast (sint p) @ ''-'' @ lexical_cast (sint ?wl)\<rparr>"
  from less.prems len have plt: "p < target_len" by (simp add: word_less_nat_alt)
  from nowrap less.prems have "pn + sz < 2 ^ 32" by simp
  then have ups: "unat (p + wSize) = pn + sz"
    using less.prems sz by (simp add: unat_add_u32)
  have "pn + off < 2 ^ 32"
  proof (cases "pn = 0")
    case True
    have "unat wOffset < 2 ^ 32" using unsigned_less[of wOffset, where 'a = nat] by simp
    with True off show ?thesis by simp
  next
    case False
    with less.prems(3) have "off \<le> pn" by (simp add: dvd_imp_le)
    moreover from less.prems(2) len31 have "pn < 2147483648" by simp
    moreover have "(2::nat) ^ 32 = 4294967296" by simp
    ultimately show ?thesis by linarith
  qed
  then have upo: "unat (p + wOffset) = pn + off"
    using less.prems off by (simp add: unat_add_u32)
  have uwl: "unat ?wl = min (pn + sz) len"
    using ups len by (simp add: word_less_nat_alt min_def)
  have st: "sint p = int pn" using less.prems len31 by (simp add: sint_u32_small)
  have "min (pn + sz) len < 2 ^ 31" using len31 by simp
  then have en: "sint ?wl = int (min (pn + sz) len)"
    using uwl by (simp only: sint_u32_small)
  have istart: "itv_start ?itv = int pn" and iend: "itv_end ?itv = int (min (pn + sz) len)"
    using st en by simp_all
  have ok: "window_ok sz len ?itv"
    unfolding window_ok_def istart iend using sz0 less.prems(2) by (simp add: min_def)
  have unf: "window_loop chr target_len wSize wOffset p intvec =
             window_loop chr target_len wSize wOffset (p + wOffset) (intvec @ [?itv])"
    using plt by (subst window_loop.simps) (simp add: Let_def)
  show ?case
  proof (cases "pn + off < len")
    case True
    have lt: "len - (pn + off) < len - pn" using off0 less.prems by simp
    have dv: "off dvd pn + off" using less.prems(3) by simp
    from less.hyps[OF lt upo[symmetric] True dv, of "intvec @ [?itv]"]
    obtain ws where ws: "window_loop chr target_len wSize wOffset (p + wOffset) (intvec @ [?itv]) =
          Some ((intvec @ [?itv]) @ ws)" "ws \<noteq> []"
      "\<forall>w \<in> set ws. int (pn + off) \<le> itv_start w \<and> window_ok sz len w"
      "sorted_wrt (\<lambda>a b. itv_start a < itv_start b) ws"
      "wOffset = wSize \<longrightarrow> partitions (int (pn + off)) (int len) ws"
      by blast
    have a: "window_loop chr target_len wSize wOffset p intvec = Some (intvec @ (?itv # ws))"
      using unf ws(1) by simp
    have b: "\<forall>w \<in> set (?itv # ws). int pn \<le> itv_start w \<and> window_ok sz len w"
    proof
      fix w assume "w \<in> set (?itv # ws)"
      then consider "w = ?itv" | "w \<in> set ws" by auto
      then show "int pn \<le> itv_start w \<and> window_ok sz len w"
      proof cases
        case 1
        with ok istart show ?thesis by simp
      next
        case 2
        with ws(3) have "int (pn + off) \<le> itv_start w \<and> window_ok sz len w" by simp
        then show ?thesis by simp
      qed
    qed
    have c: "sorted_wrt (\<lambda>a b. itv_start a < itv_start b) (?itv # ws)"
    proof -
      have "\<forall>w \<in> set ws. itv_start ?itv < itv_start w"
      proof
        fix w assume "w \<in> set ws"
        with ws(3) have "int (pn + off) \<le> itv_start w" by simp
        with off0 istart show "itv_start ?itv < itv_start w" by simp
      qed
      with ws(4) show ?thesis by (simp only: sorted_wrt.simps)
    qed
    have d: "wOffset = wSize \<longrightarrow> partitions (int pn) (int len) (?itv # ws)"
    proof
      assume e: "wOffset = wSize"
      with off sz have os: "off = sz" by simp
      with True have lt: "pn + sz < len" by simp
      then have iend': "itv_end ?itv = int (pn + sz)" using iend by simp
      from e ws(5) os have "partitions (int (pn + sz)) (int len) ws" by simp
      with istart iend' sz0 lt show "partitions (int pn) (int len) (?itv # ws)"
        by (simp only: partitions.simps) simp
    qed
    from a ws(2) b c d show ?thesis by blast
  next
    case False
    with upo len have "\<not> p + wOffset < target_len" by (simp add: word_less_nat_alt)
    then have "window_loop chr target_len wSize wOffset (p + wOffset) (intvec @ [?itv]) =
               Some (intvec @ [?itv])"
      by (subst window_loop.simps) simp
    with unf have a: "window_loop chr target_len wSize wOffset p intvec = Some (intvec @ [?itv])"
      by simp
    have b: "\<forall>w \<in> set [?itv]. int pn \<le> itv_start w \<and> window_ok sz len w"
      using ok istart by simp
    have d: "wOffset = wSize \<longrightarrow> partitions (int pn) (int len) [?itv]"
    proof
      assume e: "wOffset = wSize"
      with off sz have os: "off = sz" by simp
      with False have "len \<le> pn + sz" by simp
      then have iend': "itv_end ?itv = int len" using iend by simp
      with istart less.prems(2) show "partitions (int pn) (int len) [?itv]"
        by (simp only: partitions.simps) simp
    qed
    have ne: "[?itv] \<noteq> []" by simp
    have c: "sorted_wrt (\<lambda>a b. itv_start a < itv_start b) [?itv]" by simp
    from a ne b c d show ?thesis by blast
  qed
qed


lemma unat_window_num_size:
  assumes "unat (target_len :: u32) < 2 ^ 31"
  shows "unat (target_len div n + 1) = unat target_len div unat n + 1"
proof -
  have e: "unat (target_len div n) = unat target_len div unat n" by (rule unat_div)
  have d: "unat target_len div unat n \<le> unat target_len" by (rule div_le_dividend)
  from assms have "unat target_len < 2147483648" by simp
  with d have "unat target_len div unat n + 1 < 4294967296" by linarith
  then have "unat (target_len div n) + unat (1 :: u32) < 2 ^ 32" by (simp only: e unat_1) simp
  then have "unat (target_len div n + 1) = unat (target_len div n) + unat (1 :: u32)"
    by (rule unat_add_u32)
  then show ?thesis by (simp only: e unat_1)
qed

text \<open>
  Claim C10, amended. Without an interval file, for a chromosome length
  \<open>0 < target_len < 2\<^sup>3\<^sup>1\<close> and an effective window size and offset that are positive
  and such that the start of the last window plus the size stays below \<open>2\<^sup>3\<^sup>2\<close>, that is
  \<open>offset * ((target_len - 1) div offset) + size < 2\<^sup>3\<^sup>2\<close> (which holds by itself when
  \<open>window_num > 0\<close>), the generator returns a non-empty list of windows in strictly
  increasing start order, each with \<open>0 \<le> start < end \<le> target_len\<close> and
  \<open>end = min (start + size) target_len\<close>; when the offset equals the size the windows
  exactly partition \<open>[0, target_len)\<close>. The sum \<^verbatim>\<open>pos + wOffset\<close> cannot wrap around
  below a window start: every start but 0 is at least the offset.
\<close>

theorem createIntervals_windows:
  assumes "\<not> hasIntervalFile c" and "unat target_len < 2 ^ 31" and "0 < target_len"
    and "window_num c = 0 \<longrightarrow>
           0 < window_size c \<and> 0 < window_offset c \<and>
           unat (window_offset c) * ((unat target_len - 1) div unat (window_offset c)) +
             unat (window_size c) < 2 ^ 32"
    and "wSize = (if window_num c > 0 then target_len div window_num c + 1 else window_size c)"
    and "wOffset = (if window_num c > 0 then wSize else window_offset c)"
  shows "\<exists>ws. createIntervals c interval_file chr target_len intvec = Some (True, intvec @ ws) \<and>
           ws \<noteq> [] \<and>
           sorted_wrt (\<lambda>a b. itv_start a < itv_start b) ws \<and>
           (\<forall>w \<in> set ws. 0 \<le> itv_start w \<and> itv_start w < itv_end w \<and>
                          itv_end w \<le> uint target_len \<and>
                          itv_end w = min (itv_start w + uint wSize) (uint target_len)) \<and>
           (wOffset = wSize \<longrightarrow> partitions 0 (uint target_len) ws)"
proof -
  have len0: "0 < unat target_len" using assms(3) by (simp add: word_less_nat_alt)
  have len31: "unat target_len < 2147483648" using assms(2) by simp
  have p32: "(2::nat) ^ 32 = 4294967296" by simp
  have sz0: "0 < unat wSize"
  proof (cases "window_num c > 0")
    case True
    with assms(5) have "unat wSize = unat target_len div unat (window_num c) + 1"
      using unat_window_num_size[OF assms(2)] by simp
    then show ?thesis by simp
  next
    case False
    then have "window_num c = 0" by (simp add: word_less_nat_alt unat_eq_0)
    with assms(4,5) show ?thesis by (simp add: word_less_nat_alt)
  qed
  have off0: "0 < unat wOffset"
  proof (cases "window_num c > 0")
    case True
    with assms(6) sz0 show ?thesis by simp
  next
    case False
    then have "window_num c = 0" by (simp add: word_less_nat_alt unat_eq_0)
    with assms(4,6) show ?thesis by (simp add: word_less_nat_alt)
  qed
  have nowrap: "\<forall>q. q < unat target_len \<and> unat wOffset dvd q \<longrightarrow> q + unat wSize < 2 ^ 32"
  proof (cases "window_num c > 0")
    case True
    with assms(5) have "unat wSize = unat target_len div unat (window_num c) + 1"
      using unat_window_num_size[OF assms(2)] by simp
    moreover have "unat target_len div unat (window_num c) \<le> unat target_len"
      by (rule div_le_dividend)
    ultimately have "unat wSize \<le> unat target_len + 1" by simp
    with len31 p32 show ?thesis by (intro allI impI) linarith
  next
    case False
    then have n0: "window_num c = 0" by (simp add: word_less_nat_alt unat_eq_0)
    with assms(5,6) have e: "wSize = window_size c" "wOffset = window_offset c" by simp_all
    from n0 assms(4) have b: "unat wOffset * ((unat target_len - 1) div unat wOffset) + unat wSize < 2 ^ 32"
      unfolding e by simp
    show ?thesis
    proof (intro allI impI)
      fix q assume q: "q < unat target_len \<and> unat wOffset dvd q"
      then have "q div unat wOffset \<le> (unat target_len - 1) div unat wOffset"
        by (intro div_le_mono) linarith
      then have "unat wOffset * (q div unat wOffset) \<le> unat wOffset * ((unat target_len - 1) div unat wOffset)"
        by (rule mult_le_mono2)
      moreover from q have "unat wOffset * (q div unat wOffset) = q" by simp
      ultimately have "q \<le> unat wOffset * ((unat target_len - 1) div unat wOffset)" by simp
      with b show "q + unat wSize < 2 ^ 32" by linarith
    qed
  qed
  have z: "(0::nat) = unat (0::u32)" by simp
  have dz: "unat wOffset dvd (0::nat)" by simp
  from window_loop_windows[OF refl refl refl sz0 off0 assms(2) nowrap z len0 dz, of chr intvec]
  obtain ws where ws: "window_loop chr target_len wSize wOffset 0 intvec = Some (intvec @ ws)"
    "ws \<noteq> []" "\<forall>w \<in> set ws. int 0 \<le> itv_start w \<and> window_ok (unat wSize) (unat target_len) w"
    "sorted_wrt (\<lambda>a b. itv_start a < itv_start b) ws"
    "wOffset = wSize \<longrightarrow> partitions (int 0) (int (unat target_len)) ws"
    by auto
  have "createIntervals c interval_file chr target_len intvec =
        map_option (Pair True) (window_loop chr target_len wSize wOffset 0 intvec)"
    using assms(1,5,6) by (simp add: createIntervals_def Let_def)
  with ws(1) have a: "createIntervals c interval_file chr target_len intvec = Some (True, intvec @ ws)"
    by simp
  have b: "\<forall>w \<in> set ws. 0 \<le> itv_start w \<and> itv_start w < itv_end w \<and>
                          itv_end w \<le> uint target_len \<and>
                          itv_end w = min (itv_start w + uint wSize) (uint target_len)"
  proof
    fix w assume "w \<in> set ws"
    with ws(3) have "window_ok (unat wSize) (unat target_len) w" by simp
    then show "0 \<le> itv_start w \<and> itv_start w < itv_end w \<and>
                          itv_end w \<le> uint target_len \<and>
                          itv_end w = min (itv_start w + uint wSize) (uint target_len)"
      unfolding window_ok_def uint_nat .
  qed
  have d: "wOffset = wSize \<longrightarrow> partitions 0 (uint target_len) ws"
  proof
    assume "wOffset = wSize"
    with ws(5) have "partitions (int 0) (int (unat target_len)) ws" by simp
    then have "partitions 0 (int (unat target_len)) ws" by (simp del: of_nat_unat)
    then show "partitions 0 (uint target_len) ws" unfolding uint_nat .
  qed
  from a ws(2,4) b d show ?thesis by blast
qed

lemma char_of_digit [simp]:
  "char_of (48::nat) = CHR ''0''" "char_of (49::nat) = CHR ''1''" "char_of (50::nat) = CHR ''2''"
  "char_of (51::nat) = CHR ''3''" "char_of (52::nat) = CHR ''4''" "char_of (53::nat) = CHR ''5''"
  "char_of (54::nat) = CHR ''6''" "char_of (55::nat) = CHR ''7''" "char_of (56::nat) = CHR ''8''"
  "char_of (57::nat) = CHR ''9''"
  by code_simp+

lemma createIntervals_example:
  "createIntervals \<lparr>window_size = 4, window_offset = 4, window_num = 0, hasIntervalFile = False\<rparr> [] ''chr1'' 10 [] =
   Some (True, [\<lparr>itv_start = 0, itv_end = 4, itv_id = ''chr1:0-4''\<rparr>,
                \<lparr>itv_start = 4, itv_end = 8, itv_id = ''chr1:4-8''\<rparr>,
                \<lparr>itv_start = 8, itv_end = 10, itv_id = ''chr1:8-10''\<rparr>])"
  by code_simp


lemma createIntervals_zero_offset:
  "createIntervals \<lparr>window_size = 1, window_offset = 0, window_num = 0, hasIntervalFile = False\<rparr> [] ''chr1'' 1 [] = None"
  by (simp add: createIntervals_def window_loop_zero_offset)

text \<open>
  Claim C10 as stated fails without these conditions: a window size 0 gives an empty
  window; a window offset 0 makes the loop run forever; a large window size wraps
  \<^verbatim>\<open>pos + wSize\<close> around and gives windows that end before they start; a chromosome
  length of \<open>2\<^sup>3\<^sup>1\<close> gives a negative \<^verbatim>\<open>int32_t\<close> end.
\<close>

theorem createIntervals_windows_counterexample:
  "createIntervals \<lparr>window_size = 0, window_offset = 1, window_num = 0, hasIntervalFile = False\<rparr> [] ''chr1'' 1 [] =
     Some (True, [\<lparr>itv_start = 0, itv_end = 0, itv_id = ''chr1:0-0''\<rparr>]) \<and>
   createIntervals \<lparr>window_size = 1, window_offset = 0, window_num = 0, hasIntervalFile = False\<rparr> [] ''chr1'' 1 [] = None \<and>
   createIntervals \<lparr>window_size = 4294967295, window_offset = 4, window_num = 0, hasIntervalFile = False\<rparr> [] ''chr1'' 10 [] =
     Some (True, [\<lparr>itv_start = 0, itv_end = 10, itv_id = ''chr1:0-10''\<rparr>,
                  \<lparr>itv_start = 4, itv_end = 3, itv_id = ''chr1:4-3''\<rparr>,
                  \<lparr>itv_start = 8, itv_end = 7, itv_id = ''chr1:8-7''\<rparr>]) \<and>
   createIntervals \<lparr>window_size = 2147483647, window_offset = 2147483647, window_num = 0, hasIntervalFile = False\<rparr> [] ''chr1'' 2147483648 [] =
     Some (True, [\<lparr>itv_start = 0, itv_end = 2147483647, itv_id = ''chr1:0-2147483647''\<rparr>,
                  \<lparr>itv_start = 2147483647, itv_end = - 2147483648,
                     itv_id = ''chr1:2147483647--2147483648''\<rparr>])"
proof (intro conjI)
  show "createIntervals \<lparr>window_size = 0, window_offset = 1, window_num = 0, hasIntervalFile = False\<rparr> [] ''chr1'' 1 [] =
     Some (True, [\<lparr>itv_start = 0, itv_end = 0, itv_id = ''chr1:0-0''\<rparr>])"
    by (simp add: createIntervals_def window_loop.simps Let_def lexical_cast_def digits.simps)
  show "createIntervals \<lparr>window_size = 1, window_offset = 0, window_num = 0, hasIntervalFile = False\<rparr> [] ''chr1'' 1 [] = None"
    by (rule createIntervals_zero_offset)
  show "createIntervals \<lparr>window_size = 4294967295, window_offset = 4, window_num = 0, hasIntervalFile = False\<rparr> [] ''chr1'' 10 [] =
     Some (True, [\<lparr>itv_start = 0, itv_end = 10, itv_id = ''chr1:0-10''\<rparr>,
                  \<lparr>itv_start = 4, itv_end = 3, itv_id = ''chr1:4-3''\<rparr>,
                  \<lparr>itv_start = 8, itv_end = 7, itv_id = ''chr1:8-7''\<rparr>])"
    by (simp add: createIntervals_def window_loop.simps Let_def lexical_cast_def digits.simps)
  show "createIntervals \<lparr>window_size = 2147483647, window_offset = 2147483647, window_num = 0, hasIntervalFile = False\<rparr> [] ''chr1'' 2147483648 [] =
     Some (True, [\<lparr>itv_start = 0, itv_end = 2147483647, itv_id = ''chr1:0-2147483647''\<rparr>,
                  \<lparr>itv_start = 2147483647, itv_end = - 2147483648,
                     itv_id = ''chr1:2147483647--2147483648''\<rparr>])"
    by (simp add: createIntervals_def window_loop.simps Let_def lexical_cast_def digits.simps)
qed

lemma createIntervals_example_num:
  "createIntervals \<lparr>window_size = 7, window_offset = 2, window_num = 3, hasIntervalFile = False\<rparr> [] ''chr1'' 10 [] =
   Some (True, [\<lparr>itv_start = 0, itv_end = 4, itv_id = ''chr1:0-4''\<rparr>,
                \<lparr>itv_start = 4, itv_end = 8, itv_id = ''chr1:4-8''\<rparr>,
                \<lparr>itv_start = 8, itv_end = 10, itv_id = ''chr1:8-10''\<rparr>])"
  by (simp add: createIntervals_def window_loop.simps Let_def lexical_cast_def digits.simps)

lemma createIntervals_example_offset:
  "createIntervals \<lparr>window_size = 4, window_offset = 4294967295, window_num = 0, hasIntervalFile = False\<rparr> [] ''chr1'' 10 [] =
   Some (True, [\<lparr>itv_start = 0, itv_end = 4, itv_id = ''chr1:0-4''\<rparr>])"
  by (simp add: createIntervals_def window_loop.simps Let_def lexical_cast_def digits.simps)

theorem createIntervals_windows_witness:
  "createIntervals \<lparr>window_size = 4, window_offset = 4, window_num = 0, hasIntervalFile = False\<rparr> [] ''chr1'' 10 [] =
     Some (True, [\<lparr>itv_start = 0, itv_end = 4, itv_id = ''chr1:0-4''\<rparr>,
                  \<lparr>itv_start = 4, itv_end = 8, itv_id = ''chr1:4-8''\<rparr>,
                  \<lparr>itv_start = 8, itv_end = 10, itv_id = ''chr1:8-10''\<rparr>]) \<and>
   createIntervals \<lparr>window_size = 7, window_offset = 2, window_num = 3, hasIntervalFile = False\<rparr> [] ''chr1'' 10 [] =
     Some (True, [\<lparr>itv_start = 0, itv_end = 4, itv_id = ''chr1:0-4''\<rparr>,
                  \<lparr>itv_start = 4, itv_end = 8, itv_id = ''chr1:4-8''\<rparr>,
                  \<lparr>itv_start = 8, itv_end = 10, itv_id = ''chr1:8-10''\<rparr>]) \<and>
   partitions 0 10 [\<lparr>itv_start = 0, itv_end = 4, itv_id = ''chr1:0-4''\<rparr>,
                  \<lparr>itv_start = 4, itv_end = 8, itv_id = ''chr1:4-8''\<rparr>,
                  \<lparr>itv_start = 8, itv_end = 10, itv_id = ''chr1:8-10''\<rparr>] \<and>
   createIntervals \<lparr>window_size = 4, window_offset = 4294967295, window_num = 0, hasIntervalFile = False\<rparr> [] ''chr1'' 10 [] =
     Some (True, [\<lparr>itv_start = 0, itv_end = 4, itv_id = ''chr1:0-4''\<rparr>])"
  using createIntervals_windows[of "\<lparr>window_size = 4, window_offset = 4, window_num = 0, hasIntervalFile = False\<rparr>" 10 4 4 "[]" "''chr1''" "[]"]
    createIntervals_windows[of "\<lparr>window_size = 7, window_offset = 2, window_num = 3, hasIntervalFile = False\<rparr>" 10 4 4 "[]" "''chr1''" "[]"]
    createIntervals_windows[of "\<lparr>window_size = 4, window_offset = 4294967295, window_num = 0, hasIntervalFile = False\<rparr>" 10 4 4294967295 "[]" "''chr1''" "[]"]
    createIntervals_example createIntervals_example_num createIntervals_example_offset
  by simp

section \<open>Properties of the pairing\<close>

text \<open>A record passes the flag filter and the minimum mapping quality.\<close>

definition passes_filters :: "u16 \<Rightarrow> bam1_t \<Rightarrow> bool" where
  "passes_filters minQual rec \<longleftrightarrow> \<not> flag_filtered rec \<and> \<not> qual_filtered minQual rec"

text \<open>The state of the loop after it has read the records.\<close>

definition run_pairs :: "util \<Rightarrow> u16 \<Rightarrow> pair_state \<Rightarrow> bam1_t list \<Rightarrow> pair_state" where
  "run_pairs u minQual st recs = foldl (\<lambda>s rec. fst (resolve_pair u minQual s rec)) st recs"

lemma run_pairs_simps [simp]:
  "run_pairs u minQual st [] = st"
  "run_pairs u minQual st (rec # recs) = run_pairs u minQual (fst (resolve_pair u minQual st rec)) recs"
  "run_pairs u minQual st (xs @ ys) = run_pairs u minQual (run_pairs u minQual st xs) ys"
  by (simp_all add: run_pairs_def)

lemma valid_fragments_append:
  "valid_fragments u minQual st (xs @ ys) =
     valid_fragments u minQual st xs @ valid_fragments u minQual (run_pairs u minQual st xs) ys"
  by (induction xs arbitrary: st) (auto split: prod.splits option.splits)

lemma resolve_pair_filtered:
  "\<not> passes_filters minQual rec \<Longrightarrow> resolve_pair u minQual st rec = (st, None)"
  by (auto simp: passes_filters_def resolve_pair_def)

lemma resolve_pair_emits:
  "resolve_pair u minQual st rec = (st', Some pq) \<Longrightarrow>
     passes_filters minQual rec \<and> \<not> first_read u (clean_up st rec) rec \<and>
     (\<exists>q. qualities (clean_up st rec) (hash_pair_mate u rec) = Some q \<and> pq = min q (qual rec)) \<and>
     \<not> unat pq < unat minQual"
  by (auto simp: passes_filters_def resolve_pair_def Let_def split: if_splits option.splits)

lemma valid_fragments_mem:
  "(r, pq) \<in> set (valid_fragments u minQual st recs) \<Longrightarrow> r \<in> set recs \<and> passes_filters minQual r"
proof (induction recs arbitrary: st)
  case Nil
  then show ?case by simp
next
  case (Cons x xs)
  obtain st' e where rp: "resolve_pair u minQual st x = (st', e)" by (cases "resolve_pair u minQual st x")
  show ?case
  proof (cases e)
    case None
    with Cons rp show ?thesis by auto
  next
    case (Some q)
    with rp resolve_pair_emits[of u minQual st x st' q] have "passes_filters minQual x" by simp
    with Cons rp Some show ?thesis by auto
  qed
qed

lemma clean_up_qualities [simp]: "qualities (clean_up st rec) = qualities st"
  by (simp add: clean_up_def)

lemma resolve_pair_other_key:
  assumes "passes_filters minQual rec \<longrightarrow> hash_pair u rec \<noteq> k \<and> hash_pair_mate u rec \<noteq> k"
  shows "qualities (fst (resolve_pair u minQual st rec)) k = qualities st k"
proof (cases "passes_filters minQual rec")
  case False
  then show ?thesis by (simp add: resolve_pair_filtered)
next
  case True
  with assms have "hash_pair u rec \<noteq> k" "hash_pair_mate u rec \<noteq> k" by simp_all
  then show ?thesis
    by (auto simp: resolve_pair_def Let_def split: option.splits)
qed

lemma run_pairs_other_key:
  "\<forall>r \<in> set recs. passes_filters minQual r \<longrightarrow> hash_pair u r \<noteq> k \<and> hash_pair_mate u r \<noteq> k \<Longrightarrow>
   qualities (run_pairs u minQual st recs) k = qualities st k"
  by (induction recs arbitrary: st) (simp_all add: resolve_pair_other_key)

lemma valid_fragments_other_key:
  assumes "\<forall>r \<in> set recs. passes_filters minQual r \<longrightarrow> hash_pair_mate u r \<noteq> k"
  shows "filter (\<lambda>f. hash_pair_mate u (fst f) = k) (valid_fragments u minQual st recs) = []"
proof -
  have "\<forall>f \<in> set (valid_fragments u minQual st recs). hash_pair_mate u (fst f) \<noteq> k"
  proof
    fix f assume "f \<in> set (valid_fragments u minQual st recs)"
    then have "(fst f, snd f) \<in> set (valid_fragments u minQual st recs)" by simp
    from valid_fragments_mem[OF this] assms show "hash_pair_mate u (fst f) \<noteq> k" by blast
  qed
  then show ?thesis by (simp add: filter_empty_conv)
qed


text \<open>
  On a stream sorted by non-negative position, \<^verbatim>\<open>lastAlignedPosReads\<close> only holds names
  of passing records at \<^verbatim>\<open>lastAlignedPos\<close>, which is 0 or the position of a record already
  read.
\<close>

definition reads_inv :: "util \<Rightarrow> u16 \<Rightarrow> pair_state \<Rightarrow> bam1_t list \<Rightarrow> bool" where
  "reads_inv u minQual st seen \<longleftrightarrow>
     (\<forall>h \<in> lastAlignedPosReads st.
        \<exists>r \<in> set seen. passes_filters minQual r \<and> h = hash_string u (qname r) \<and>
                      pos r = lastAlignedPos st) \<and>
     (lastAlignedPos st = 0 \<or> lastAlignedPos st \<in> pos ` set seen)"

lemma reads_inv_init: "reads_inv u minQual init_state []"
  by (simp add: reads_inv_def init_state_def)

lemma reads_inv_same:
  "reads_inv u minQual s seen \<Longrightarrow> lastAlignedPos s' = lastAlignedPos s \<Longrightarrow>
   lastAlignedPosReads s' = lastAlignedPosReads s \<Longrightarrow> reads_inv u minQual s' seen"
  by (simp add: reads_inv_def)

lemma reads_inv_insert:
  "reads_inv u minQual s seen \<Longrightarrow> lastAlignedPos s' = lastAlignedPos s \<Longrightarrow>
   lastAlignedPosReads s' = insert (hash_string u (qname r)) (lastAlignedPosReads s) \<Longrightarrow>
   r \<in> set seen \<Longrightarrow> passes_filters minQual r \<Longrightarrow> pos r = lastAlignedPos s \<Longrightarrow>
   reads_inv u minQual s' seen"
  unfolding reads_inv_def by (metis insertE)

lemma resolve_pair_state_cases:
  assumes "passes_filters minQual rec"
  shows "lastAlignedPos (fst (resolve_pair u minQual st rec)) = lastAlignedPos (clean_up st rec) \<and>
         (lastAlignedPosReads (fst (resolve_pair u minQual st rec)) = lastAlignedPosReads (clean_up st rec) \<or>
          lastAlignedPosReads (fst (resolve_pair u minQual st rec)) =
            insert (hash_string u (qname rec)) (lastAlignedPosReads (clean_up st rec)))"
  using assms
  by (auto simp: passes_filters_def resolve_pair_def Let_def split: option.splits)

lemma reads_inv_step:
  assumes inv: "reads_inv u minQual st seen"
    and le: "\<forall>x \<in> set seen. pos x \<le> pos rec" and nn: "0 \<le> pos rec"
  shows "reads_inv u minQual (fst (resolve_pair u minQual st rec)) (seen @ [rec])"
proof (cases "passes_filters minQual rec")
  case False
  with inv show ?thesis by (auto simp: resolve_pair_filtered reads_inv_def)
next
  case True
  let ?c = "clean_up st rec"
  let ?s = "fst (resolve_pair u minQual st rec)"
  from inv have last_le: "lastAlignedPos st \<le> pos rec"
    using le nn by (auto simp: reads_inv_def)
  have c: "reads_inv u minQual ?c (seen @ [rec]) \<and> lastAlignedPos ?c = pos rec"
  proof (cases "pos rec > lastAlignedPos st")
    case True
    then show ?thesis by (simp add: clean_up_def reads_inv_def)
  next
    case False
    with last_le have "lastAlignedPos st = pos rec" by simp
    with inv False show ?thesis by (auto simp: clean_up_def reads_inv_def)
  qed
  from resolve_pair_state_cases[OF True, of u st]
  have l: "lastAlignedPos ?s = lastAlignedPos ?c"
    and r: "lastAlignedPosReads ?s = lastAlignedPosReads ?c \<or>
            lastAlignedPosReads ?s = insert (hash_string u (qname rec)) (lastAlignedPosReads ?c)"
    by simp_all
  from r show ?thesis
  proof
    assume e: "lastAlignedPosReads ?s = lastAlignedPosReads ?c"
    show ?thesis by (rule reads_inv_same[OF conjunct1[OF c] l e])
  next
    assume e: "lastAlignedPosReads ?s = insert (hash_string u (qname rec)) (lastAlignedPosReads ?c)"
    have m: "rec \<in> set (seen @ [rec])" by simp
    show ?thesis by (rule reads_inv_insert[OF conjunct1[OF c] l e m True conjunct2[OF c, symmetric]])
  qed
qed

lemma reads_inv_run:
  "sorted (map pos recs) \<Longrightarrow> \<forall>r \<in> set recs. 0 \<le> pos r \<Longrightarrow>
   reads_inv u minQual (run_pairs u minQual init_state recs) recs"
proof (induction recs rule: rev_induct)
  case Nil
  then show ?case by (simp add: reads_inv_init)
next
  case (snoc x xs)
  from snoc.prems have s: "sorted (map pos xs)" and le: "\<forall>y \<in> set xs. pos y \<le> pos x"
    by (auto simp: sorted_append)
  from snoc.prems have nn: "\<forall>r \<in> set xs. 0 \<le> pos r" "0 \<le> pos x" by simp_all
  from reads_inv_step[OF snoc.IH[OF s nn(1)] le nn(2)] show ?case by simp
qed

lemma run_pairs_keeps_reads:
  "\<forall>r \<in> set recs. pos r \<le> lastAlignedPos st \<Longrightarrow>
   lastAlignedPos (run_pairs u minQual st recs) = lastAlignedPos st \<and>
   lastAlignedPosReads st \<subseteq> lastAlignedPosReads (run_pairs u minQual st recs)"
proof (induction recs arbitrary: st)
  case Nil
  then show ?case by simp
next
  case (Cons x xs)
  let ?s = "fst (resolve_pair u minQual st x)"
  from Cons.prems have x: "pos x \<le> lastAlignedPos st" by simp
  then have cu: "clean_up st x = st" by (simp add: clean_up_def)
  have st: "lastAlignedPos ?s = lastAlignedPos st \<and> lastAlignedPosReads st \<subseteq> lastAlignedPosReads ?s"
  proof (cases "passes_filters minQual x")
    case False
    then show ?thesis by (simp add: resolve_pair_filtered)
  next
    case True
    from resolve_pair_state_cases[OF True, of u st] cu show ?thesis by auto
  qed
  with Cons.prems have "\<forall>r \<in> set xs. pos r \<le> lastAlignedPos ?s" by simp
  from Cons.IH[OF this] st show ?case by auto
qed


lemma resolve_pair_first:
  "passes_filters minQual rec \<Longrightarrow> first_read u (clean_up st rec) rec \<Longrightarrow>
   resolve_pair u minQual st rec =
     ((clean_up st rec)\<lparr>lastAlignedPosReads :=
          insert (hash_string u (qname rec)) (lastAlignedPosReads (clean_up st rec)),
        qualities := (qualities (clean_up st rec))(hash_pair u rec \<mapsto> qual rec)\<rparr>, None)"
  by (simp add: passes_filters_def resolve_pair_def Let_def)

lemma resolve_pair_no_mate:
  "qualities st (hash_pair_mate u rec) = None \<Longrightarrow> snd (resolve_pair u minQual st rec) = None"
  by (simp add: resolve_pair_def Let_def)

lemma unat_min_u8: "unat (min (x :: u8) y) = min (unat x) (unat y)"
  by (simp add: min_def word_le_nat_alt)

lemma resolve_pair_second:
  assumes "passes_filters minQual rec" "\<not> first_read u (clean_up st rec) rec"
    and "qualities st (hash_pair_mate u rec) = Some q" "\<not> unat q < unat minQual"
  shows "snd (resolve_pair u minQual st rec) = Some (min q (qual rec))"
proof -
  from assms(1) have "\<not> unat (qual rec) < unat minQual"
    by (simp add: passes_filters_def qual_filtered_def)
  with assms(4) have "\<not> unat (min q (qual rec)) < unat minQual" by (simp add: unat_min_u8)
  with assms(1,2,3) show ?thesis by (simp add: passes_filters_def resolve_pair_def Let_def)
qed

lemma valid_fragments_single:
  "valid_fragments u minQual st [rec] =
     (case snd (resolve_pair u minQual st rec) of None \<Rightarrow> [] | Some pq \<Rightarrow> [(rec, pq)])"
  by (simp split: prod.splits option.splits)

lemma clean_up_last: "pos rec \<le> lastAlignedPos (clean_up st rec)"
  by (simp add: clean_up_def)

lemma pair_resolved:
  assumes recs: "recs = pre @ a # mid @ b # post"
    and sorted: "sorted (map pos recs)" and nonneg: "\<forall>r \<in> set recs. 0 \<le> pos r"
    and mates: "qname b = qname a" "pos b = mpos a" "mpos b = pos a" "pos a \<le> pos b"
    and key: "hash_pair_mate u b = hash_pair u a"
    and unique: "\<forall>r \<in> set (pre @ mid @ post). passes_filters minQual r \<longrightarrow>
                   hash_pair u r \<noteq> hash_pair u a \<and> hash_pair_mate u r \<noteq> hash_pair u a"
    and names: "\<forall>r \<in> set (pre @ mid). passes_filters minQual r \<and> pos r = pos a \<longrightarrow>
                   hash_string u (qname r) \<noteq> hash_string u (qname a)"
  shows "filter (\<lambda>f. hash_pair_mate u (fst f) = hash_pair u a)
           (valid_fragments u minQual init_state recs) =
         (if passes_filters minQual a \<and> passes_filters minQual b
          then [(b, min (qual a) (qual b))] else [])"
proof -
  let ?k = "hash_pair u a"
  let ?F = "filter (\<lambda>f. hash_pair_mate u (fst f) = ?k)"
  define s1 where "s1 = run_pairs u minQual init_state pre"
  define s2 where "s2 = fst (resolve_pair u minQual s1 a)"
  define s3 where "s3 = run_pairs u minQual s2 mid"
  define s4 where "s4 = fst (resolve_pair u minQual s3 b)"
  have split: "valid_fragments u minQual init_state recs =
      valid_fragments u minQual init_state pre @ valid_fragments u minQual s1 [a] @
      valid_fragments u minQual s2 mid @ valid_fragments u minQual s3 [b] @
      valid_fragments u minQual s4 post"
  proof -
    have "recs = pre @ [a] @ mid @ [b] @ post" using recs by simp
    then show ?thesis
      by (simp only: valid_fragments_append run_pairs_simps s1_def s2_def s3_def s4_def)
  qed
  have pre0: "?F (valid_fragments u minQual init_state pre) = []"
    using unique by (intro valid_fragments_other_key) simp
  have mid0: "?F (valid_fragments u minQual s2 mid) = []"
    using unique by (intro valid_fragments_other_key) simp
  have post0: "?F (valid_fragments u minQual s4 post) = []"
    using unique by (intro valid_fragments_other_key) simp
  have q1: "qualities s1 ?k = None"
  proof -
    have "qualities s1 ?k = qualities init_state ?k"
      unfolding s1_def using unique by (intro run_pairs_other_key) simp
    then show ?thesis by (simp add: init_state_def)
  qed
  have sorted_pre: "sorted (map pos pre)" and pre_le: "\<forall>x \<in> set pre. pos x \<le> pos a"
    and mid_le: "\<forall>x \<in> set mid. pos x \<le> pos b"
    using sorted recs by (auto simp: sorted_append)
  have inv1: "reads_inv u minQual s1 pre"
    unfolding s1_def using sorted_pre nonneg recs by (intro reads_inv_run) simp_all
  have a_nn: "0 \<le> pos a" using nonneg recs by simp
  have last1: "lastAlignedPos s1 \<le> pos a"
    using inv1 pre_le a_nn by (auto simp: reads_inv_def)
  have a_first: "first_read u (clean_up s1 a) a" if pa: "passes_filters minQual a"
  proof (cases "pos a < mpos a")
    case True
    then show ?thesis by (simp add: first_read_def)
  next
    case False
    with mates have tie: "pos a = mpos a" by simp
    have "hash_string u (qname a) \<notin> lastAlignedPosReads (clean_up s1 a)"
    proof (cases "pos a > lastAlignedPos s1")
      case True
      then show ?thesis by (simp add: clean_up_def)
    next
      case False
      with last1 have eq: "lastAlignedPos s1 = pos a" by simp
      have "hash_string u (qname a) \<notin> lastAlignedPosReads s1"
      proof
        assume "hash_string u (qname a) \<in> lastAlignedPosReads s1"
        with inv1 obtain r where "r \<in> set pre" "passes_filters minQual r"
          "hash_string u (qname a) = hash_string u (qname r)" "pos r = lastAlignedPos s1"
          unfolding reads_inv_def by blast
        with names eq show False by auto
      qed
      with False show ?thesis by (simp add: clean_up_def)
    qed
    with tie show ?thesis by (simp add: first_read_def)
  qed
  have a0: "valid_fragments u minQual s1 [a] = []"
  proof (cases "passes_filters minQual a")
    case True
    from resolve_pair_first[OF True a_first[OF True]] show ?thesis by simp
  next
    case False
    then show ?thesis by (simp add: resolve_pair_filtered)
  qed
  have q3: "qualities s3 ?k = qualities s2 ?k"
    unfolding s3_def using unique by (intro run_pairs_other_key) simp
  have b_res: "snd (resolve_pair u minQual s3 b) =
      (if passes_filters minQual a \<and> passes_filters minQual b
       then Some (min (qual a) (qual b)) else None)"
  proof (cases "passes_filters minQual a")
    case False
    then have "s2 = s1" by (simp add: s2_def resolve_pair_filtered)
    with q1 q3 key have "qualities s3 (hash_pair_mate u b) = None" by simp
    from resolve_pair_no_mate[OF this] False show ?thesis by simp
  next
    case pa: True
    from resolve_pair_first[OF pa a_first[OF pa]]
    have s2: "s2 = (clean_up s1 a)\<lparr>lastAlignedPosReads :=
          insert (hash_string u (qname a)) (lastAlignedPosReads (clean_up s1 a)),
        qualities := (qualities (clean_up s1 a))(?k \<mapsto> qual a)\<rparr>"
      by (simp add: s2_def)
    then have q2: "qualities s2 ?k = Some (qual a)" by simp
    show ?thesis
    proof (cases "passes_filters minQual b")
      case False
      then show ?thesis by (simp add: resolve_pair_filtered)
    next
      case pb: True
      have second: "\<not> first_read u (clean_up s3 b) b"
      proof (cases "pos a < pos b")
        case True
        with mates show ?thesis by (simp add: first_read_def)
      next
        case False
        with mates have tie: "pos b = pos a" "pos b = mpos b" by simp_all
        have l2: "lastAlignedPos s2 = pos a"
          using last1 by (simp add: s2 clean_up_def)
        have n2: "hash_string u (qname a) \<in> lastAlignedPosReads s2" by (simp add: s2)
        have "\<forall>r \<in> set mid. pos r \<le> lastAlignedPos s2" using mid_le tie l2 by simp
        from run_pairs_keeps_reads[OF this, of u minQual] n2 l2
        have l3: "lastAlignedPos s3 = pos a" and n3: "hash_string u (qname a) \<in> lastAlignedPosReads s3"
          by (auto simp: s3_def)
        from l3 tie have "clean_up s3 b = s3" by (simp add: clean_up_def)
        with n3 tie mates show ?thesis by (simp add: first_read_def)
      qed
      from pa have qa: "\<not> unat (qual a) < unat minQual"
        by (simp add: passes_filters_def qual_filtered_def)
      from q2 q3 key have "qualities s3 (hash_pair_mate u b) = Some (qual a)" by simp
      from resolve_pair_second[OF pb second this qa] pa pb show ?thesis by simp
    qed
  qed
  have b0: "?F (valid_fragments u minQual s3 [b]) =
      (if passes_filters minQual a \<and> passes_filters minQual b
       then [(b, min (qual a) (qual b))] else [])"
    unfolding valid_fragments_single b_res using key by simp
  show ?thesis
    unfolding split filter_append pre0 mid0 post0 a0 b0 by simp
qed


subsection \<open>An instance of the helpers\<close>

text \<open>
  A concrete choice of the four helpers, for evaluating the loops on examples: a
  polynomial hash of the query name, combined with the coordinates of the read and of
  its mate (in the opposite order for \<^verbatim>\<open>hash_pair_mate\<close>), and half the reference span
  of the CIGAR.
\<close>

definition hash_combine :: "nat \<Rightarrow> int \<Rightarrow> nat" where
  "hash_combine seed v = seed * 31 + nat v"

fun alignmentLength :: "u32 list \<Rightarrow> nat" where
  "alignmentLength [] = 0"
| "alignmentLength (c # cs) =
     (if bam_cigar_op c = BAM_CMATCH \<or> bam_cigar_op c = BAM_CEQUAL \<or> bam_cigar_op c = BAM_CDIFF \<or>
         bam_cigar_op c = BAM_CDEL \<or> bam_cigar_op c = BAM_CREF_SKIP
      then unat (bam_cigar_oplen c) + alignmentLength cs else alignmentLength cs)"

definition example_hash_string :: "string \<Rightarrow> nat" where
  "example_hash_string s = foldl (\<lambda>h c. h * 31 + of_char c) 0 s"

definition example_util :: util where
  "example_util =
     \<lparr>hash_string = example_hash_string,
      hash_pair = (\<lambda>rec. hash_combine (hash_combine (hash_combine (hash_combine
          (example_hash_string (qname rec)) (tid rec)) (pos rec)) (mtid rec)) (mpos rec)),
      hash_pair_mate = (\<lambda>rec. hash_combine (hash_combine (hash_combine (hash_combine
          (example_hash_string (qname rec)) (mtid rec)) (mpos rec)) (tid rec)) (pos rec)),
      halfAlignmentLength = (\<lambda>rec. (alignmentLength (cigar rec) mod 2 ^ 32) div 2)\<rparr>"

text \<open>A record on reference 0 with its mate on the same reference.\<close>

definition read :: "string \<Rightarrow> u16 \<Rightarrow> int \<Rightarrow> int \<Rightarrow> u8 \<Rightarrow> u32 list \<Rightarrow> bam1_t" where
  "read name fl p mp q cig =
     \<lparr>tid = 0, pos = p, qual = q, flag = fl, mtid = 0, mpos = mp, qname = name, cigar = cig\<rparr>"


lemmas eval_defs = example_util_def example_hash_string_def read_def resolve_pair_def
  flag_filtered_def qual_filtered_def clean_up_def first_read_def init_state_def hash_combine_def
  Let_def BAM_FSECONDARY_def BAM_FQCFAIL_def BAM_FDUP_def BAM_FSUPPLEMENTARY_def BAM_FUNMAP_def
  BAM_FMUNMAP_def BAM_FPAIRED_def passes_filters_def

lemma scenario_tie:
  assumes "\<not> flag_filtered a" "\<not> flag_filtered b"
    and "pos a = 100" "mpos a = 100" "pos b = 100" "mpos b = 100" "qname b = qname a"
    and "qual a = 30" "qual b = 25" "hash_pair_mate u b = hash_pair u a"
  shows "valid_fragments u 20 init_state [a, b] = [(b, 25)]"
    and "valid_fragments u 26 init_state [a, b] = []"
  using assms
  by (simp_all add: resolve_pair_def qual_filtered_def clean_up_def first_read_def init_state_def Let_def)

text \<open>
  Claim C1. In a stream sorted by non-negative position let \<open>a\<close> and \<open>b\<close> be the two
  mates of a pair (same query name, each at the other's mate position, \<open>a\<close> first),
  whose key no other passing record shares, and whose name hash no other passing record
  at the position of \<open>a\<close> before \<open>b\<close> shares. Then the valid fragments with this key
  are exactly one, \<open>b\<close> with the minimum of the two qualities, if both mates pass the
  flag and quality filters and that minimum reaches the threshold, and none otherwise.
  Two mates at 100/100 with the same name and qualities 30 and 25 give one fragment of
  quality 25 at threshold 20 and none at threshold 26.
\<close>

theorem fragment_pair_resolver_emits:
  "(recs = pre @ a # mid @ b # post \<and> sorted (map pos recs) \<and> (\<forall>r \<in> set recs. 0 \<le> pos r) \<and>
    qname b = qname a \<and> pos b = mpos a \<and> mpos b = pos a \<and> pos a \<le> pos b \<and>
    hash_pair_mate u b = hash_pair u a \<and>
    (\<forall>r \<in> set (pre @ mid @ post). passes_filters minQual r \<longrightarrow>
         hash_pair u r \<noteq> hash_pair u a \<and> hash_pair_mate u r \<noteq> hash_pair u a) \<and>
    (\<forall>r \<in> set (pre @ mid). passes_filters minQual r \<and> pos r = pos a \<longrightarrow>
         hash_string u (qname r) \<noteq> hash_string u (qname a))
    \<longrightarrow>
      filter (\<lambda>f. hash_pair_mate u (fst f) = hash_pair u a)
          (valid_fragments u minQual init_state recs) =
        (if passes_filters minQual a \<and> passes_filters minQual b \<and>
            unat minQual \<le> unat (min (qual a) (qual b))
         then [(b, min (qual a) (qual b))] else [])) \<and>
   (\<not> flag_filtered a' \<and> \<not> flag_filtered b' \<and>
    pos a' = 100 \<and> mpos a' = 100 \<and> pos b' = 100 \<and> mpos b' = 100 \<and> qname b' = qname a' \<and>
    qual a' = 30 \<and> qual b' = 25 \<and> hash_pair_mate u b' = hash_pair u a'
    \<longrightarrow>
      valid_fragments u 20 init_state [a', b'] = [(b', 25)] \<and>
      valid_fragments u 26 init_state [a', b'] = [])"
proof (intro conjI impI)
  assume h: "recs = pre @ a # mid @ b # post \<and> sorted (map pos recs) \<and> (\<forall>r \<in> set recs. 0 \<le> pos r) \<and>
    qname b = qname a \<and> pos b = mpos a \<and> mpos b = pos a \<and> pos a \<le> pos b \<and>
    hash_pair_mate u b = hash_pair u a \<and>
    (\<forall>r \<in> set (pre @ mid @ post). passes_filters minQual r \<longrightarrow>
         hash_pair u r \<noteq> hash_pair u a \<and> hash_pair_mate u r \<noteq> hash_pair u a) \<and>
    (\<forall>r \<in> set (pre @ mid). passes_filters minQual r \<and> pos r = pos a \<longrightarrow>
         hash_string u (qname r) \<noteq> hash_string u (qname a))"
  have m: "passes_filters minQual a \<and> passes_filters minQual b \<Longrightarrow>
           unat minQual \<le> unat (min (qual a) (qual b))"
    by (simp add: passes_filters_def qual_filtered_def unat_min_u8)
  from h have h1: "recs = pre @ a # mid @ b # post" and h2: "sorted (map pos recs)"
    and h3: "\<forall>r \<in> set recs. 0 \<le> pos r"
    and h4: "qname b = qname a" "pos b = mpos a" "mpos b = pos a" "pos a \<le> pos b"
    and h5: "hash_pair_mate u b = hash_pair u a"
    and h6: "\<forall>r \<in> set (pre @ mid @ post). passes_filters minQual r \<longrightarrow>
         hash_pair u r \<noteq> hash_pair u a \<and> hash_pair_mate u r \<noteq> hash_pair u a"
    and h7: "\<forall>r \<in> set (pre @ mid). passes_filters minQual r \<and> pos r = pos a \<longrightarrow>
         hash_string u (qname r) \<noteq> hash_string u (qname a)"
    by blast+
  have "filter (\<lambda>f. hash_pair_mate u (fst f) = hash_pair u a)
          (valid_fragments u minQual init_state recs) =
        (if passes_filters minQual a \<and> passes_filters minQual b
         then [(b, min (qual a) (qual b))] else [])"
    by (rule pair_resolved[OF h1 h2 h3 h4 h5 h6 h7])
  with m show "filter (\<lambda>f. hash_pair_mate u (fst f) = hash_pair u a)
          (valid_fragments u minQual init_state recs) =
        (if passes_filters minQual a \<and> passes_filters minQual b \<and>
            unat minQual \<le> unat (min (qual a) (qual b))
         then [(b, min (qual a) (qual b))] else [])"
    by auto
next
  assume h: "\<not> flag_filtered a' \<and> \<not> flag_filtered b' \<and>
    pos a' = 100 \<and> mpos a' = 100 \<and> pos b' = 100 \<and> mpos b' = 100 \<and> qname b' = qname a' \<and>
    qual a' = 30 \<and> qual b' = 25 \<and> hash_pair_mate u b' = hash_pair u a'"
  then show "valid_fragments u 20 init_state [a', b'] = [(b', 25)]"
    by (intro scenario_tie(1)) simp_all
  from h show "valid_fragments u 26 init_state [a', b'] = []"
    by (intro scenario_tie(2)) simp_all
qed


theorem fragment_pair_resolver_emits_witness:
  "valid_fragments example_util 20 init_state
     [read ''r2'' 99 50 300 40 [800], read ''r1'' 99 100 250 30 [800],
      read ''r1'' 147 250 100 25 [800], read ''r2'' 147 300 50 60 [800]] =
     [(read ''r1'' 147 250 100 25 [800], 25), (read ''r2'' 147 300 50 60 [800], 40)] \<and>
   filter (\<lambda>f. hash_pair_mate example_util (fst f) =
                hash_pair example_util (read ''r1'' 99 100 250 30 [800]))
     (valid_fragments example_util 20 init_state
       [read ''r2'' 99 50 300 40 [800], read ''r1'' 99 100 250 30 [800],
        read ''r1'' 147 250 100 25 [800], read ''r2'' 147 300 50 60 [800]]) =
     [(read ''r1'' 147 250 100 25 [800], 25)] \<and>
   valid_fragments example_util 20 init_state
     [read ''r1'' 99 100 100 30 [800], read ''r1'' 147 100 100 25 [800]] =
     [(read ''r1'' 147 100 100 25 [800], 25)] \<and>
   valid_fragments example_util 26 init_state
     [read ''r1'' 99 100 100 30 [800], read ''r1'' 147 100 100 25 [800]] = []"
  using fragment_pair_resolver_emits[of
      "[read ''r2'' 99 50 300 40 [800], read ''r1'' 99 100 250 30 [800],
        read ''r1'' 147 250 100 25 [800], read ''r2'' 147 300 50 60 [800]]"
      "[read ''r2'' 99 50 300 40 [800]]" "read ''r1'' 99 100 250 30 [800]" "[]"
      "read ''r1'' 147 250 100 25 [800]" "[read ''r2'' 147 300 50 60 [800]]"
      example_util 20
      "read ''r1'' 99 100 100 30 [800]" "read ''r1'' 147 100 100 25 [800]"]
  by (simp add: eval_defs)

end
